theory Spec2Isabelle
  imports Complex_Main "HOL-Library.Multiset" "HOL-Library.Char_ord" "HOL-Library.List_Lexorder"
begin

section \<open>Data model of the causal knowledge graph (src/dkg/DKG.ts)\<close>

text \<open>
  A JavaScript string is modelled as \<^typ>\<open>string\<close>, compared code unit by code unit
  (the order \<open>Array.prototype.sort\<close> uses by default, here the lexicographic order on
  character lists). The timestamp \<open>ts: number\<close> holds integer milliseconds and is an
  \<^typ>\<open>int\<close>; \<open>agentId?: bigint\<close> is an \<^typ>\<open>int option\<close>. The untyped
  \<open>metadata\<close> dictionary of a node is read by none of the graph operations and is left out.
\<close>

record DKGNode =
  author :: string
  sig :: string
  ts :: int
  xmtpMsgId :: string
  artifactIds :: "string list"
  payloadHash :: string
  parents :: "string list"
  vlc :: "string option"
  agentId :: "int option"
  content :: "string option"
  nodeType :: string

text \<open>
  A JavaScript \<open>Map\<close> iterates in insertion order, and \<open>set\<close> on a key that is present
  replaces the value where the key stands. It is modelled as an association list with
  these two rules; the keys of a \<open>Map\<close> are distinct.
\<close>

fun map_set :: "'k \<Rightarrow> 'v \<Rightarrow> ('k \<times> 'v) list \<Rightarrow> ('k \<times> 'v) list" where
  "map_set k v [] = [(k, v)]"
| "map_set k v ((k', v') # m) = (if k' = k then (k, v) # m else (k', v') # map_set k v m)"

definition map_get :: "('k \<times> 'v) list \<Rightarrow> 'k \<Rightarrow> 'v option" where
  "map_get m k = map_of m k"

definition map_has :: "('k \<times> 'v) list \<Rightarrow> 'k \<Rightarrow> bool" where
  "map_has m k = (map_of m k \<noteq> None)"

definition map_keys :: "('k \<times> 'v) list \<Rightarrow> 'k list" where
  "map_keys m = map fst m"

definition map_values :: "('k \<times> 'v) list \<Rightarrow> 'v list" where
  "map_values m = map snd m"

record DKG =
  nodes :: "(string \<times> DKGNode) list"
  edges :: "(string \<times> string list) list"
  rootNodes :: "string list"

definition new_DKG :: DKG where
  "new_DKG = \<lparr>nodes = [], edges = [], rootNodes = []\<rparr>"

subsection \<open>The ethers primitives\<close>

text \<open>
  The hash function and the byte conversions come from the \<open>ethers\<close> package, which is
  not part of the repository: they are parameters of the model. \<open>keccak256\<close> takes bytes
  and returns a hex string, \<open>toUtf8Bytes\<close> encodes a string, and \<open>concat_hex\<close> is
  \<open>ethers.concat\<close>, the bytes of a list of hex strings one after the other.
  \<open>ethers.ZeroHash\<close> is the hex string of 32 zero bytes.
\<close>

record 'b ethers =
  keccak256 :: "'b \<Rightarrow> string"
  toUtf8Bytes :: "string \<Rightarrow> 'b"
  concat_hex :: "string list \<Rightarrow> 'b"

definition ZeroHash :: string where
  "ZeroHash = ''0x'' @ replicate 64 (CHR ''0'')"

subsection \<open>Strings: Number.prototype.toString and Array.prototype.join\<close>

definition digit_char :: "nat \<Rightarrow> char" where
  "digit_char d = ''0123456789'' ! d"

function string_of_nat :: "nat \<Rightarrow> string" where
  "string_of_nat n =
     (if n < 10 then [digit_char n] else string_of_nat (n div 10) @ [digit_char (n mod 10)])"
  by pat_completeness auto
termination
  by (relation "measure (\<lambda>n. n)") auto

declare string_of_nat.simps [simp del]

definition number_toString :: "int \<Rightarrow> string" where
  "number_toString i =
     (if i < 0 then CHR ''-'' # string_of_nat (nat (- i)) else string_of_nat (nat i))"

fun join :: "string \<Rightarrow> string list \<Rightarrow> string" where
  "join sep [] = []"
| "join sep [x] = x"
| "join sep (x # y # ys) = x @ sep @ join sep (y # ys)"

section \<open>Canonical hasher (DKGNode.computeCanonicalHash)\<close>

text \<open>\<open>canonical\<close> is the local constant of that name: the string that is hashed.\<close>

definition canonical :: "DKGNode \<Rightarrow> string" where
  "canonical n =
     (let sortedParents = sort (parents n)
      in join ''|'' [author n, number_toString (ts n), xmtpMsgId n, payloadHash n,
                     join ''|'' sortedParents])"

definition computeCanonicalHash :: "'b ethers \<Rightarrow> DKGNode \<Rightarrow> string" where
  "computeCanonicalHash eth n = keccak256 eth (toUtf8Bytes eth (canonical n))"

section \<open>Graph store (DKG.addNode, getNode, getChildren)\<close>

text \<open>
  \<open>addNode(node, nodeId?)\<close>: the key is \<open>nodeId || node.xmtpMsgId\<close>, so an absent or
  empty \<open>nodeId\<close> falls back to the message id. The function returns the key; the model
  returns the updated graph, and \<open>addNode_id\<close> is the returned key.
\<close>

definition addNode_id :: "DKGNode \<Rightarrow> string option \<Rightarrow> string" where
  "addNode_id node nodeId =
     (case nodeId of None \<Rightarrow> xmtpMsgId node
      | Some s \<Rightarrow> if s = [] then xmtpMsgId node else s)"

definition getChildren :: "DKG \<Rightarrow> string \<Rightarrow> string list" where
  "getChildren g nodeId = (case map_get (edges g) nodeId of None \<Rightarrow> [] | Some cs \<Rightarrow> cs)"

definition getNode :: "DKG \<Rightarrow> string \<Rightarrow> DKGNode option" where
  "getNode g nodeId = map_get (nodes g) nodeId"

text \<open>The loop over \<open>node.parents\<close> that pushes the key onto each parent's child list.\<close>

fun add_edges :: "string \<Rightarrow> string list \<Rightarrow> (string \<times> string list) list
    \<Rightarrow> (string \<times> string list) list" where
  "add_edges i [] es = es"
| "add_edges i (parentId # ps) es =
     (let es1 = (if \<not> map_has es parentId then map_set parentId [] es else es);
          cs = (case map_get es1 parentId of None \<Rightarrow> [] | Some cs \<Rightarrow> cs)
      in add_edges i ps (map_set parentId (cs @ [i]) es1))"

definition addNode :: "DKG \<Rightarrow> DKGNode \<Rightarrow> string option \<Rightarrow> DKG" where
  "addNode g node nodeId =
     (let i = addNode_id node nodeId;
          g1 = g\<lparr>nodes := map_set i node (nodes g)\<rparr>;
          g2 = g1\<lparr>edges := add_edges i (parents node) (edges g1)\<rparr>
      in if parents node = []
         then (if i \<notin> set (rootNodes g2) then g2\<lparr>rootNodes := rootNodes g2 @ [i]\<rparr> else g2)
         else g2)"

section \<open>Topological sequencer (DKG.topologicalSort)\<close>

text \<open>
  The two \<open>throw new Error(...)\<close> of \<open>visit\<close> are the two errors; \<open>message\<close> is the
  \<open>error.message\<close> the caller reads.
\<close>

datatype error = CycleDetected string | NodeNotFound string

fun message :: "error \<Rightarrow> string" where
  "message (CycleDetected nodeId) = ''Cycle detected in DKG at node '' @ nodeId"
| "message (NodeNotFound nodeId) = ''Node '' @ nodeId @ '' not found''"

text \<open>The three local variables the closure \<open>visit\<close> updates.\<close>

record sort_state =
  visited :: "string set"
  result :: "DKGNode list"
  visiting :: "string set"

text \<open>
  \<open>visit\<close> and its loop over \<open>node.parents\<close>. An exception leaves both at once, so the
  loop stops at the first \<open>Inl\<close>.
\<close>

function visit :: "DKG \<Rightarrow> sort_state \<Rightarrow> string \<Rightarrow> error + sort_state"
  and visit_parents :: "DKG \<Rightarrow> sort_state \<Rightarrow> string list \<Rightarrow> error + sort_state" where
  "visit g st nodeId =
    (if nodeId \<in> visiting st then Inl (CycleDetected nodeId)
     else if nodeId \<in> visited st then Inr st
     else (case map_get (nodes g) nodeId of
             None \<Rightarrow> Inl (NodeNotFound nodeId)
           | Some node \<Rightarrow>
               (case visit_parents g (st\<lparr>visiting := insert nodeId (visiting st)\<rparr>) (parents node) of
                  Inl e \<Rightarrow> Inl e
                | Inr st2 \<Rightarrow> Inr (st2\<lparr>visiting := visiting st2 - {nodeId},
                                    visited := insert nodeId (visited st2),
                                    result := result st2 @ [node]\<rparr>))))"
| "visit_parents g st [] = Inr st"
| "visit_parents g st (parentId # ps) =
     (case visit g st parentId of Inl e \<Rightarrow> Inl e | Inr st' \<Rightarrow> visit_parents g st' ps)"
  by pat_completeness auto

text \<open>
  Termination: a call that goes on adds a stored key to \<open>visiting\<close>, and a call that
  returns leaves \<open>visiting\<close> as it found it, so the stored keys outside \<open>visiting\<close>
  shrink along every chain of nested calls.
\<close>

lemma visit_keeps_visiting:
  "visit_visit_parents_dom (Inl (g, st, n)) \<Longrightarrow> visit g st n = Inr st'
     \<Longrightarrow> visiting st' = visiting st"
  "visit_visit_parents_dom (Inr (g, st, ps)) \<Longrightarrow> visit_parents g st ps = Inr st''
     \<Longrightarrow> visiting st'' = visiting st"
proof (induction g st n and g st ps arbitrary: st' and st'' rule: visit_visit_parents.pinduct)
  case (1 g st nodeId)
  note eq = "1.prems"[unfolded visit.psimps[OF "1.hyps"]]
  show ?case
  proof (cases "nodeId \<in> visiting st \<or> nodeId \<in> visited st")
    case True
    with eq show ?thesis by (auto split: if_splits)
  next
    case False
    then obtain node where n: "map_get (nodes g) nodeId = Some node"
      using eq by (auto split: option.splits)
    then obtain st2 where
      v: "visit_parents g (st\<lparr>visiting := insert nodeId (visiting st)\<rparr>) (parents node) = Inr st2"
      using eq False by (auto split: sum.splits)
    have "visiting st2 = insert nodeId (visiting st)"
      using "1.IH"[OF _ _ n v] False by simp
    moreover have "st' = st2\<lparr>visiting := visiting st2 - {nodeId},
        visited := insert nodeId (visited st2), result := result st2 @ [node]\<rparr>"
      using eq False n v by simp
    ultimately show ?thesis using False by auto
  qed
next
  case (2 g st)
  then show ?case by (simp add: visit_parents.psimps)
next
  case (3 g st parentId ps)
  note eq = "3.prems"[unfolded visit_parents.psimps(2)[OF "3.hyps"]]
  from eq obtain st1 where v: "visit g st parentId = Inr st1"
    by (auto split: sum.splits)
  with eq have r: "visit_parents g st1 ps = Inr st''" by simp
  show ?case using "3.IH"(1)[OF v] "3.IH"(2)[OF v r] by simp
qed

termination visit
proof (relation "measures
    [\<lambda>x. case x of Inl (g, st, n) \<Rightarrow> card (set (map_keys (nodes g)) - visiting st)
                 | Inr (g, st, ps) \<Rightarrow> card (set (map_keys (nodes g)) - visiting st),
     \<lambda>x. case x of Inl (g, st, n) \<Rightarrow> 0 | Inr (g, st, ps) \<Rightarrow> Suc (length ps)]", goal_cases)
  case 1
  show ?case by simp
next
  case (2 g st nodeId node)
  then have k: "nodeId \<in> set (map_keys (nodes g))"
    by (force simp: map_get_def map_keys_def dest!: map_of_SomeD)
  have "set (map_keys (nodes g)) - insert nodeId (visiting st)
      \<subset> set (map_keys (nodes g)) - visiting st"
    using 2(1) k by blast
  then show ?case
    by (simp add: psubset_card_mono)
next
  case 3
  show ?case by simp
next
  case (4 g st parentId ps st')
  then show ?case
    by (simp add: visit_keeps_visiting)
qed

declare visit.simps [simp del]

text \<open>The loop \<open>for (const nodeId of this.nodes.keys())\<close>.\<close>

fun visit_all :: "DKG \<Rightarrow> sort_state \<Rightarrow> string list \<Rightarrow> error + sort_state" where
  "visit_all g st [] = Inr st"
| "visit_all g st (nodeId # ks) =
     (if nodeId \<notin> visited st
      then (case visit g st nodeId of Inl e \<Rightarrow> Inl e | Inr st' \<Rightarrow> visit_all g st' ks)
      else visit_all g st ks)"

definition topologicalSort :: "DKG \<Rightarrow> error + DKGNode list" where
  "topologicalSort g =
     (case visit_all g \<lparr>visited = {}, result = [], visiting = {}\<rparr> (map_keys (nodes g)) of
        Inl e \<Rightarrow> Inl e
      | Inr st \<Rightarrow> Inr (result st))"

section \<open>Aggregate committer (DKG.computeThreadRoot)\<close>

text \<open>
  The inner \<open>for (let i = 0; i < current.length; i += 2)\<close> loop, with its index and the
  array \<open>next\<close> it fills, and the outer \<open>while (current.length > 1)\<close> loop.
\<close>

function pair_loop :: "'b ethers \<Rightarrow> string list \<Rightarrow> nat \<Rightarrow> string list \<Rightarrow> string list" where
  "pair_loop eth current i next =
     (if i < length current
      then (if i + 1 < length current
            then pair_loop eth current (i + 2)
                   (next @ [keccak256 eth (concat_hex eth [current ! i, current ! (i + 1)])])
            else pair_loop eth current (i + 2) (next @ [current ! i]))
      else next)"
  by pat_completeness auto
termination
  by (relation "measure (\<lambda>(eth, current, i, next). length current - i)") auto

declare pair_loop.simps [simp del]

lemma length_pair_loop:
  "length (pair_loop eth current i nx) = length nx + (length current - i + 1) div 2"
proof (induction eth current i nx rule: pair_loop.induct)
  case (1 eth current i nx)
  show ?case
  proof (cases "i < length current")
    case True
    then show ?thesis using 1 by (subst pair_loop.simps) (auto split: if_splits)
  next
    case False
    then show ?thesis by (subst pair_loop.simps) simp
  qed
qed

function merkle_loop :: "'b ethers \<Rightarrow> string list \<Rightarrow> string list" where
  "merkle_loop eth current =
     (if length current > 1 then merkle_loop eth (pair_loop eth current 0 []) else current)"
  by pat_completeness auto
termination
  by (relation "measure (\<lambda>(eth, current). length current)") (auto simp: length_pair_loop)

declare merkle_loop.simps [simp del]

text \<open>
  \<open>computeThreadRoot\<close> does not catch what \<open>topologicalSort\<close> throws: the error is its
  own result.
\<close>

definition computeThreadRoot :: "'b ethers \<Rightarrow> DKG \<Rightarrow> error + string" where
  "computeThreadRoot eth g =
     (case topologicalSort g of
        Inl e \<Rightarrow> Inl e
      | Inr sortedNodes \<Rightarrow>
          if length sortedNodes = 0 then Inr ZeroHash
          else (let hashes = map (computeCanonicalHash eth) sortedNodes
                in if length hashes = 1 then Inr (hashes ! 0)
                   else Inr (merkle_loop eth hashes ! 0)))"

section \<open>Attribution engine (DKG.countDescendants, computeContributionWeights)\<close>

text \<open>
  The closure \<open>count\<close> of \<open>countDescendants\<close> and its loop over the children; the set
  \<open>visited\<close> it updates is passed in and returned. (\<open>count\<close> and \<open>total\<close> are constants
  of the library, hence \<open>count_node\<close> and \<open>tot\<close>.)
\<close>

function count_node :: "DKG \<Rightarrow> string set \<Rightarrow> string \<Rightarrow> nat \<times> string set"
  and count_children :: "DKG \<Rightarrow> string set \<Rightarrow> string list \<Rightarrow> nat \<Rightarrow> nat \<times> string set" where
  "count_node g visited_ids i =
     (if i \<in> visited_ids then (0, visited_ids)
      else count_children g (insert i visited_ids) (getChildren g i) (length (getChildren g i)))"
| "count_children g visited_ids [] tot = (tot, visited_ids)"
| "count_children g visited_ids (childId # cs) tot =
     (case count_node g visited_ids childId of
        (n, visited_ids') \<Rightarrow> count_children g visited_ids' cs (tot + n))"
  by pat_completeness auto

definition edge_ids :: "DKG \<Rightarrow> string set" where
  "edge_ids g = set (map_keys (edges g)) \<union> \<Union> (set (map set (map_values (edges g))))"

lemma getChildren_edge_ids: "set (getChildren g i) \<subseteq> edge_ids g"
proof (cases "map_of (edges g) i")
  case None
  then show ?thesis by (simp add: getChildren_def map_get_def)
next
  case (Some cs)
  then have "(i, cs) \<in> set (edges g)" by (rule map_of_SomeD)
  then have "set cs \<in> set (map set (map_values (edges g)))"
    by (force simp: map_values_def)
  then show ?thesis using Some
    by (auto simp: getChildren_def map_get_def edge_ids_def)
qed

lemma count_grows:
  "count_node_count_children_dom (Inl (g, v, i)) \<Longrightarrow> v \<subseteq> snd (count_node g v i)"
  "count_node_count_children_dom (Inr (g, v, cs, t)) \<Longrightarrow> v \<subseteq> snd (count_children g v cs t)"
proof (induction g v i and g v cs t rule: count_node_count_children.pinduct)
  case (1 g v i)
  then show ?case by (auto simp: count_node.psimps)
next
  case (2 g v t)
  then show ?case by (simp add: count_children.psimps)
next
  case (3 g v c cs t)
  obtain n v' where c: "count_node g v c = (n, v')" by (cases "count_node g v c")
  have "v \<subseteq> v'" using "3.IH"(1) c by simp
  moreover have "v' \<subseteq> snd (count_children g v' cs (t + n))"
    using "3.IH"(2)[OF c[symmetric]] by simp
  ultimately show ?case
    by (simp add: count_children.psimps(2)[OF "3.hyps"] c)
qed

termination count_node
proof (relation "measures
    [\<lambda>x. case x of Inl (g, v, i) \<Rightarrow> card (insert i (edge_ids g) - v)
                 | Inr (g, v, cs, t) \<Rightarrow> card ((edge_ids g \<union> set cs) - v),
     \<lambda>x. case x of Inl (g, v, i) \<Rightarrow> 0 | Inr (g, v, cs, t) \<Rightarrow> Suc (length cs)]", goal_cases)
  case 1
  show ?case by simp
next
  case (2 g v i)
  have fin: "finite (edge_ids g)" by (simp add: edge_ids_def)
  have "(edge_ids g \<union> set (getChildren g i)) - insert i v \<subset> insert i (edge_ids g) - v"
    using 2 getChildren_edge_ids[of g i] by blast
  then show ?case using fin by (simp add: psubset_card_mono)
next
  case (3 g v c cs t)
  have fin: "finite (edge_ids g)" by (simp add: edge_ids_def)
  have "insert c (edge_ids g) - v \<subseteq> (edge_ids g \<union> set (c # cs)) - v" by auto
  then have "card (insert c (edge_ids g) - v) \<le> card ((edge_ids g \<union> set (c # cs)) - v)"
    using fin by (intro card_mono) auto
  then show ?case by (simp add: le_less)
next
  case (4 g v c cs t n v')
  have fin: "finite (edge_ids g)" by (simp add: edge_ids_def)
  have "v \<subseteq> v'" using count_grows(1)[OF 4(2)] 4(1)[symmetric] by simp
  then have "(edge_ids g \<union> set cs) - v' \<subseteq> (edge_ids g \<union> set (c # cs)) - v" by auto
  then have "card ((edge_ids g \<union> set cs) - v') \<le> card ((edge_ids g \<union> set (c # cs)) - v)"
    using fin by (intro card_mono) auto
  then show ?case by (simp add: le_less)
qed

declare count_node.simps [simp del]

definition countDescendants :: "DKG \<Rightarrow> string \<Rightarrow> nat" where
  "countDescendants g nodeId = fst (count_node g {} nodeId)"

text \<open>
  A \<open>number\<close> is an IEEE 754 binary64 value. The finite ones are rationals, so the
  model carries them as reals and rounds after every operation, as the standard
  prescribes for \<open>+\<close>, \<open>*\<close> and \<open>/\<close>: \<open>round_double x\<close> is the binary64 value nearest
  to \<open>x\<close>, and on a tie the one with the even significand. Where
  \<open>2 ^ e \<le> \<bar>x\<bar> < 2 ^ (e + 1)\<close> the binary64 values are the multiples of
  \<open>2 ^ (e - 52)\<close>; \<open>exponent x\<close> is that \<open>e\<close>, found by halving (\<open>exp_down\<close>, from 1
  upwards) or doubling (\<open>exp_up\<close>, below 1). The exponent is not bounded: overflow
  to \<open>Infinity\<close> above \<open>2 ^ 1024\<close>, the subnormal numbers below \<open>2 ^ - 1022\<close> and \<open>NaN\<close>
  are not part of the model.
\<close>

definition round_even :: "real \<Rightarrow> int" where
  "round_even q =
     (let f = \<lfloor>q\<rfloor>; r = q - of_int f
      in if r < 1 / 2 then f else if 1 / 2 < r then f + 1 else if even f then f else f + 1)"

function exp_down :: "real \<Rightarrow> int" where
  "exp_down x = (if x < 2 then 0 else 1 + exp_down (x / 2))"
  by pat_completeness auto
termination
proof (relation "measure (\<lambda>x. nat \<lfloor>x\<rfloor>)", goal_cases)
  case 1
  show ?case by simp
next
  case (2 x)
  then have "x / 2 \<le> x - 1" by simp
  then have "\<lfloor>x / 2\<rfloor> \<le> \<lfloor>x - 1\<rfloor>" by (rule floor_mono)
  moreover have "2 \<le> \<lfloor>x\<rfloor>" using 2 by (simp add: le_floor_iff)
  ultimately show ?case by simp
qed

declare exp_down.simps [simp del]

function exp_up :: "real \<Rightarrow> int" where
  "exp_up x = (if x \<le> 0 \<or> 1 \<le> x then 0 else exp_up (2 * x) - 1)"
  by pat_completeness auto
termination
proof (relation "measure (\<lambda>x. nat \<lceil>1 / x\<rceil>)", goal_cases)
  case 1
  show ?case by simp
next
  case (2 x)
  then have x: "0 < x" "x < 1" by simp_all
  then have y: "1 < 1 / x" by simp
  then have c: "2 \<le> \<lceil>1 / x\<rceil>" by (simp add: le_ceiling_iff)
  have "1 / (2 * x) = (1 / x) / 2" by simp
  also have "\<dots> \<le> of_int \<lceil>1 / x\<rceil> / 2" by (simp add: divide_right_mono)
  also have "\<dots> \<le> of_int (\<lceil>1 / x\<rceil> - 1)" using c by simp
  finally have "\<lceil>1 / (2 * x)\<rceil> \<le> \<lceil>1 / x\<rceil> - 1" by (rule ceiling_le)
  then show ?case using c x by simp
qed

declare exp_up.simps [simp del]

definition exponent :: "real \<Rightarrow> int" where
  "exponent x = (if 1 \<le> \<bar>x\<bar> then exp_down \<bar>x\<bar> else exp_up \<bar>x\<bar>)"

definition round_double :: "real \<Rightarrow> real" where
  "round_double x =
     (if x = 0 then 0
      else (let ulp = 2 powi (exponent x - 52) in of_int (round_even (x / ulp)) * ulp))"

text \<open>The operators \<open>+\<close>, \<open>*\<close> and \<open>/\<close> of the language: the exact result, rounded once.\<close>

definition double_add :: "real \<Rightarrow> real \<Rightarrow> real" where
  "double_add a b = round_double (a + b)"

definition double_mul :: "real \<Rightarrow> real \<Rightarrow> real" where
  "double_mul a b = round_double (a * b)"

definition double_div :: "real \<Rightarrow> real \<Rightarrow> real" where
  "double_div a b = round_double (a / b)"

text \<open>
  In \<open>computeContributionWeights\<close> the literal \<open>0.1\<close> is the binary64 value nearest to
  one tenth, \<open>round_double (1 / 10)\<close>. The count that \<open>countDescendants\<close> returns is a
  number too, built by additions that are exact as long as it stays below \<open>2 ^ 53\<close>.
  \<open>contribution / total\<close> is only evaluated for an entry of \<open>agentContributions\<close>,
  and then \<open>total\<close> is at least 1.
\<close>

definition agentKey_of :: "DKGNode \<Rightarrow> string" where
  "agentKey_of node =
     (case agentId node of
        None \<Rightarrow> author node
      | Some a \<Rightarrow> if a \<noteq> 0 then number_toString a else author node)"

fun accumulate :: "DKG \<Rightarrow> (string \<times> DKGNode) list \<Rightarrow> (string \<times> real) list
    \<Rightarrow> (string \<times> real) list" where
  "accumulate g [] agentContributions = agentContributions"
| "accumulate g ((nodeId, node) # rest) agentContributions =
     (let agentKey = agentKey_of node;
          current = (case map_get agentContributions agentKey of None \<Rightarrow> 0 | Some c \<Rightarrow> c);
          descendants = countDescendants g nodeId;
          weight = double_add 1 (double_mul (real descendants) (round_double (1 / 10)))
      in accumulate g rest (map_set agentKey (double_add current weight) agentContributions))"

fun normalize :: "real \<Rightarrow> (string \<times> real) list \<Rightarrow> (string \<times> real) list
    \<Rightarrow> (string \<times> real) list" where
  "normalize t [] weights = weights"
| "normalize t ((agent, contribution) # rest) weights =
     normalize t rest (map_set agent (double_div contribution t) weights)"

definition computeContributionWeights :: "DKG \<Rightarrow> (string \<times> real) list" where
  "computeContributionWeights g =
     (let agentContributions = accumulate g (nodes g) [];
          t = foldl (\<lambda>a b. double_add a b) 0 (map_values agentContributions)
      in normalize t agentContributions [])"

section \<open>Causal chain tracer (DKG.traceCausalChain)\<close>

text \<open>
  \<open>path_nodes\<close> is \<open>path.map((id) => this.nodes.get(id)!).filter(Boolean)\<close>;
  \<open>enqueue_children\<close> is the loop over the children, and \<open>trace_loop\<close> the
  \<open>while (queue.length > 0)\<close> loop, whose \<open>queue.shift()\<close> takes the head.
\<close>

definition path_nodes :: "DKG \<Rightarrow> string list \<Rightarrow> DKGNode list" where
  "path_nodes g path =
     concat (map (\<lambda>i. case map_get (nodes g) i of None \<Rightarrow> [] | Some n \<Rightarrow> [n]) path)"

fun enqueue_children :: "string list \<Rightarrow> string set \<Rightarrow> string list
    \<Rightarrow> (string \<times> string list) list \<Rightarrow> (string \<times> string list) list" where
  "enqueue_children path visited_ids [] queue = queue"
| "enqueue_children path visited_ids (childId # cs) queue =
     enqueue_children path visited_ids cs
       (if childId \<notin> visited_ids then queue @ [(childId, path @ [childId])] else queue)"

lemma enqueue_children_eq:
  "enqueue_children path v cs queue =
     queue @ map (\<lambda>c. (c, path @ [c])) (filter (\<lambda>c. c \<notin> v) cs)"
  by (induction cs arbitrary: queue) auto

function trace_loop :: "DKG \<Rightarrow> string \<Rightarrow> (string \<times> string list) list \<Rightarrow> string set
    \<Rightarrow> DKGNode list" where
  "trace_loop g toNodeId [] visited_ids = []"
| "trace_loop g toNodeId ((nodeId, path) # queue) visited_ids =
     (if nodeId = toNodeId then path_nodes g path
      else if nodeId \<in> visited_ids then trace_loop g toNodeId queue visited_ids
      else trace_loop g toNodeId
             (enqueue_children path (insert nodeId visited_ids) (getChildren g nodeId) queue)
             (insert nodeId visited_ids))"
  by pat_completeness auto
termination
proof (relation "measures
    [\<lambda>(g, t, queue, v). card ((edge_ids g \<union> fst ` set queue) - v),
     \<lambda>(g, t, queue, v). length queue]", goal_cases)
  case 1
  show ?case by simp
next
  case (2 g toNodeId nodeId path queue visited_ids)
  have "(edge_ids g \<union> fst ` set queue) - visited_ids
      \<subseteq> (edge_ids g \<union> fst ` set ((nodeId, path) # queue)) - visited_ids"
    by auto
  then have "card ((edge_ids g \<union> fst ` set queue) - visited_ids)
      \<le> card ((edge_ids g \<union> fst ` set ((nodeId, path) # queue)) - visited_ids)"
    by (intro card_mono) (auto simp: edge_ids_def)
  then show ?case by (simp add: le_less)
next
  case (3 g toNodeId nodeId path queue visited_ids)
  have "(edge_ids g \<union> fst ` set (enqueue_children path (insert nodeId visited_ids)
            (getChildren g nodeId) queue)) - insert nodeId visited_ids
      \<subset> (edge_ids g \<union> fst ` set ((nodeId, path) # queue)) - visited_ids"
    using 3 getChildren_edge_ids[of g nodeId]
    by (auto simp: enqueue_children_eq)
  then show ?case
    by (simp add: psubset_card_mono edge_ids_def)
qed

declare trace_loop.simps [simp del]

definition traceCausalChain :: "DKG \<Rightarrow> string \<Rightarrow> string \<Rightarrow> DKGNode list" where
  "traceCausalChain g fromNodeId toNodeId =
     (if \<not> map_has (nodes g) fromNodeId \<or> \<not> map_has (nodes g) toNodeId then []
      else trace_loop g toNodeId [(fromNodeId, [fromNodeId])] {})"

section \<open>Causal auditor (VerifierAgent.auditCausality, src/ChaosChainSDK.ts)\<close>

record audit_report =
  passed :: bool
  issues :: "string list"
  nodeCount :: nat
  edgeCount :: nat
  rootNodeCount :: nat

definition missing_parent_issue :: "string \<Rightarrow> string \<Rightarrow> string" where
  "missing_parent_issue nodeId parentId =
     ''Node '' @ nodeId @ '' references missing parent '' @ parentId"

definition timestamp_issue :: "string \<Rightarrow> DKGNode \<Rightarrow> string \<Rightarrow> DKGNode \<Rightarrow> string" where
  "timestamp_issue nodeId node parentId parent =
     ''Node '' @ nodeId @ '' has timestamp '' @ number_toString (ts node) @ '' before parent ''
       @ parentId @ '' ('' @ number_toString (ts parent) @ '')''"

definition sort_issue :: "error \<Rightarrow> string" where
  "sort_issue e = ''Cycle detected in DKG: '' @ message e"

text \<open>The first pair of nested loops: every parent must be a key of \<open>dkg.nodes\<close>.\<close>

fun check_parents :: "DKG \<Rightarrow> string \<Rightarrow> string list \<Rightarrow> string list \<Rightarrow> string list" where
  "check_parents g nodeId [] acc = acc"
| "check_parents g nodeId (parentId # ps) acc =
     check_parents g nodeId ps
       (if \<not> map_has (nodes g) parentId then acc @ [missing_parent_issue nodeId parentId]
        else acc)"

fun check_all_parents :: "DKG \<Rightarrow> (string \<times> DKGNode) list \<Rightarrow> string list \<Rightarrow> string list" where
  "check_all_parents g [] acc = acc"
| "check_all_parents g ((nodeId, node) # rest) acc =
     check_all_parents g rest (check_parents g nodeId (parents node) acc)"

text \<open>The second pair: a parent that is present must not be later than its child.\<close>

fun check_timestamps :: "DKG \<Rightarrow> string \<Rightarrow> DKGNode \<Rightarrow> string list \<Rightarrow> string list
    \<Rightarrow> string list" where
  "check_timestamps g nodeId node [] acc = acc"
| "check_timestamps g nodeId node (parentId # ps) acc =
     check_timestamps g nodeId node ps
       (case map_get (nodes g) parentId of
          None \<Rightarrow> acc
        | Some parent \<Rightarrow>
            if ts parent > ts node then acc @ [timestamp_issue nodeId node parentId parent]
            else acc)"

fun check_all_timestamps :: "DKG \<Rightarrow> (string \<times> DKGNode) list \<Rightarrow> string list \<Rightarrow> string list" where
  "check_all_timestamps g [] acc = acc"
| "check_all_timestamps g ((nodeId, node) # rest) acc =
     check_all_timestamps g rest (check_timestamps g nodeId node (parents node) acc)"

text \<open>
  The \<open>try { dkg.topologicalSort() } catch (error) { issues.push(...) }\<close> catches every
  error of the sort, whichever of the two it is.
\<close>

definition auditCausality :: "DKG \<Rightarrow> audit_report" where
  "auditCausality g =
     (let issues1 = check_all_parents g (nodes g) [];
          issues2 = check_all_timestamps g (nodes g) issues1;
          issues3 = (case topologicalSort g of
                       Inl e \<Rightarrow> issues2 @ [sort_issue e]
                     | Inr sorted_nodes \<Rightarrow> issues2)
      in \<lparr>passed = (length issues3 = 0),
          issues = issues3,
          nodeCount = length (nodes g),
          edgeCount = foldl (\<lambda>sum children. sum + length children) 0 (map_values (edges g)),
          rootNodeCount = length (rootNodes g)\<rparr>)"

section \<open>Concrete inputs\<close>

text \<open>
  An instance of the \<open>ethers\<close> parameters on which the model can be evaluated: the hash
  is the identity on its bytes, so two digests are equal only when the hashed bytes are.
  \<open>createNode\<close> follows the helper of tests/dkg/DKGNode.test.ts: the timestamp is an
  argument here, and the payload hash is the payload string \<open>payload_<id>\<close> itself.
\<close>

definition plain_ethers :: "string ethers" where
  "plain_ethers = \<lparr>keccak256 = (\<lambda>b. b), toUtf8Bytes = (\<lambda>s. s), concat_hex = concat\<rparr>"

definition createNode :: "string \<Rightarrow> string list \<Rightarrow> string \<Rightarrow> int \<Rightarrow> DKGNode" where
  "createNode i ps a t =
     \<lparr>author = a, sig = ''0x'' @ replicate 130 (CHR ''a''), ts = t, xmtpMsgId = i,
      artifactIds = [], payloadHash = ''payload_'' @ i, parents = ps, vlc = None,
      agentId = None, content = None, nodeType = ''message''\<rparr>"


section \<open>The canonical hash\<close>

lemma sort_mset_cong: "mset xs = mset ys \<Longrightarrow> sort xs = sort (ys :: string list)"
  by (metis properties_for_sort sorted_sort mset_sort)


text \<open>
  Claim C6. For every node and every permutation \<open>ps'\<close> of its parent list \<open>ps\<close>, the
  canonical hash of the node with parents \<open>ps\<close> is the canonical hash of the node with
  parents \<open>ps'\<close>: the order in which the parents were given never reaches the hash,
  whatever the hash function is.
\<close>

theorem canonical_hash_parent_order:
  "mset ps = mset ps' \<Longrightarrow>
   computeCanonicalHash eth (n\<lparr>parents := ps\<rparr>) = computeCanonicalHash eth (n\<lparr>parents := ps'\<rparr>)"
  by (simp add: computeCanonicalHash_def canonical_def sort_mset_cong[of ps ps'])


theorem canonical_hash_parent_order_witness:
  "mset [''msg_002'', ''msg_001''] = mset [''msg_001'', ''msg_002''] \<and>
   computeCanonicalHash plain_ethers
     ((createNode ''msg_123'' [] ''0x1234'' 1700000000000)\<lparr>parents := [''msg_002'', ''msg_001'']\<rparr>)
   = computeCanonicalHash plain_ethers
     ((createNode ''msg_123'' [] ''0x1234'' 1700000000000)\<lparr>parents := [''msg_001'', ''msg_002'']\<rparr>)"
  using canonical_hash_parent_order[of "[''msg_002'', ''msg_001'']" "[''msg_001'', ''msg_002'']"
      plain_ethers "createNode ''msg_123'' [] ''0x1234'' 1700000000000"]
  by simp

subsection \<open>Decimal strings and the separator\<close>

lemma string_of_nat_small: "n < 10 \<Longrightarrow> string_of_nat n = [digit_char n]"
  by (simp add: string_of_nat.simps)

lemma string_of_nat_big:
  "\<not> n < 10 \<Longrightarrow> string_of_nat n = string_of_nat (n div 10) @ [digit_char (n mod 10)]"
  by (subst string_of_nat.simps) simp

lemma digit_char_in: "d < 10 \<Longrightarrow> digit_char d \<in> set ''0123456789''"
  unfolding digit_char_def by (rule nth_mem) simp

lemma digit_char_inj: "d < 10 \<Longrightarrow> e < 10 \<Longrightarrow> digit_char d = digit_char e \<Longrightarrow> d = e"
  unfolding digit_char_def
  by (subst (asm) nth_eq_iff_index_eq) simp_all

lemma string_of_nat_digits: "set (string_of_nat n) \<subseteq> set ''0123456789''"
proof (induction n rule: string_of_nat.induct)
  case (1 n)
  show ?case
  proof (cases "n < 10")
    case True
    then show ?thesis using digit_char_in[of n] by (simp add: string_of_nat_small)
  next
    case False
    have "n mod 10 < 10" by simp
    then show ?thesis using 1[OF False] False digit_char_in[of "n mod 10"]
      by (simp add: string_of_nat_big)
  qed
qed

lemma string_of_nat_nonempty: "string_of_nat n \<noteq> []"
  by (cases "n < 10") (simp_all add: string_of_nat_small string_of_nat_big)

lemma string_of_nat_inj: "string_of_nat m = string_of_nat n \<Longrightarrow> m = n"
proof (induction m arbitrary: n rule: string_of_nat.induct)
  case (1 m)
  show ?case
  proof (cases "m < 10")
    case True
    show ?thesis
    proof (cases "n < 10")
      case n: True
      then show ?thesis using True 1(2) digit_char_inj by (simp add: string_of_nat_small)
    next
      case False
      then show ?thesis using True 1(2) string_of_nat_nonempty[of "n div 10"]
        by (simp add: string_of_nat_small string_of_nat_big)
    qed
  next
    case False
    show ?thesis
    proof (cases "n < 10")
      case True
      then show ?thesis using False 1(2) string_of_nat_nonempty[of "m div 10"]
        by (simp add: string_of_nat_small string_of_nat_big)
    next
      case n: False
      have e: "string_of_nat (m div 10) = string_of_nat (n div 10)"
        "digit_char (m mod 10) = digit_char (n mod 10)"
        using 1(2) False n by (simp_all add: string_of_nat_big)
      have "m div 10 = n div 10" using 1(1)[OF False e(1)] .
      moreover have "m mod 10 = n mod 10" using e(2) digit_char_inj[of "m mod 10" "n mod 10"] by simp
      ultimately show ?thesis by (metis div_mult_mod_eq)
    qed
  qed
qed

lemma number_toString_inj: "number_toString i = number_toString j \<Longrightarrow> i = j"
proof -
  assume a: "number_toString i = number_toString j"
  have nd: "\<And>n. CHR ''-'' \<notin> set (string_of_nat n)"
    using string_of_nat_digits by fastforce
  have hd: "\<And>n. hd (string_of_nat n) \<noteq> CHR ''-''"
    using nd string_of_nat_nonempty by (metis hd_in_set)
  show ?thesis
  proof (cases "i < 0")
    case True
    show ?thesis
    proof (cases "j < 0")
      case t: True
      then have "nat (-i) = nat (-j)" using a True string_of_nat_inj by (simp add: number_toString_def)
      then show ?thesis using True t by simp
    next
      case False
      then show ?thesis using a True hd[of "nat j"] by (auto simp: number_toString_def) (metis list.sel(1))
    qed
  next
    case False
    show ?thesis
    proof (cases "j < 0")
      case True
      then show ?thesis using a False hd[of "nat i"] by (auto simp: number_toString_def)
    next
      case f: False
      then have "nat i = nat j" using a False string_of_nat_inj by (simp add: number_toString_def)
      then show ?thesis using False f by simp
    qed
  qed
qed

lemma number_toString_no_bar: "CHR ''|'' \<notin> set (number_toString i)"
  using string_of_nat_digits[of "nat i"] string_of_nat_digits[of "nat (- i)"]
  by (auto simp: number_toString_def)

lemma split_at_sep:
  "c \<notin> set x \<Longrightarrow> c \<notin> set y \<Longrightarrow> x @ c # r = y @ c # r' \<Longrightarrow> x = y \<and> r = r'"
proof (induction x arbitrary: y)
  case Nil
  then show ?case by (cases y) auto
next
  case (Cons a x)
  then show ?case by (cases y) auto
qed

lemma join_inj_aux:
  "sep = [c] \<Longrightarrow> \<forall>p\<in>set xs. p \<noteq> [] \<and> c \<notin> set p \<Longrightarrow> \<forall>p\<in>set ys. p \<noteq> [] \<and> c \<notin> set p \<Longrightarrow>
   join sep xs = join sep ys \<Longrightarrow> xs = ys"
proof (induction sep xs arbitrary: ys rule: join.induct)
  case (1 sep)
  then show ?case by (cases "(sep, ys)" rule: join.cases) auto
next
  case (2 sep x)
  then show ?case by (cases "(sep, ys)" rule: join.cases) auto
next
  case (3 sep x y zs)
  show ?case
  proof (cases "(sep, ys)" rule: join.cases)
    case (1 s)
    then show ?thesis using "3.prems" by auto
  next
    case (2 s u)
    then show ?thesis using "3.prems" by auto
  next
    case (3 s u v ws)
    then have e: "x @ c # join sep (y # zs) = u @ c # join sep (v # ws)"
      using "3.prems" by auto
    have "x = u \<and> join sep (y # zs) = join sep (v # ws)"
      using split_at_sep[OF _ _ e] "3.prems" 3 by auto
    then have xu: "x = u" and j: "join sep (y # zs) = join sep (v # ws)" by simp_all
    have p1: "\<forall>p\<in>set (y # zs). p \<noteq> [] \<and> c \<notin> set p" using "3.prems"(2) by simp
    have p2: "\<forall>p\<in>set (v # ws). p \<noteq> [] \<and> c \<notin> set p" using "3.prems"(3) 3 by simp
    have "y # zs = v # ws" using "3.IH"[OF "3.prems"(1) p1 p2 j] .
    then show ?thesis using xu 3 by simp
  qed
qed

lemma join_bar_inj:
  "\<forall>p\<in>set xs. p \<noteq> [] \<and> c \<notin> set p \<Longrightarrow> \<forall>p\<in>set ys. p \<noteq> [] \<and> c \<notin> set p \<Longrightarrow>
   join [c] xs = join [c] ys \<Longrightarrow> xs = ys"
  using join_inj_aux[of "[c]" c xs ys] by simp


text \<open>
  Claim C5, as the code has it. The separator \<open>|\<close> is not escaped, so it can stand
  inside an author, an id, a payload hash or a parent id, and an empty parent id joins
  to the same string as no parent at all. Where none of these four kinds of field
  contains \<open>|\<close> and no parent id is empty, the serialization is unambiguous: two
  nodes with the same \<open>canonical\<close> string have the same author, timestamp, id, payload
  hash and sorted parents. (Read backwards: nodes that differ in one of the five differ
  in the string that is hashed.)
\<close>

theorem canonical_unambiguous:
  assumes "CHR ''|'' \<notin> set (author a) \<union> set (xmtpMsgId a) \<union> set (payloadHash a)"
    and "CHR ''|'' \<notin> set (author b) \<union> set (xmtpMsgId b) \<union> set (payloadHash b)"
    and "\<forall>p\<in>set (parents a) \<union> set (parents b). p \<noteq> [] \<and> CHR ''|'' \<notin> set p"
    and "canonical a = canonical b"
  shows "author a = author b \<and> ts a = ts b \<and> xmtpMsgId a = xmtpMsgId b
    \<and> payloadHash a = payloadHash b \<and> sort (parents a) = sort (parents b)"
proof -
  let ?c = "CHR ''|''"
  have e: "author a @ ?c # number_toString (ts a) @ ?c # xmtpMsgId a @ ?c # payloadHash a @ ?c #
             join [?c] (sort (parents a))
         = author b @ ?c # number_toString (ts b) @ ?c # xmtpMsgId b @ ?c # payloadHash b @ ?c #
             join [?c] (sort (parents b))"
    using assms(4) by (simp add: canonical_def)
  have 1: "author a = author b" and e1: "number_toString (ts a) @ ?c # xmtpMsgId a @ ?c # payloadHash a @ ?c #
             join [?c] (sort (parents a)) = number_toString (ts b) @ ?c # xmtpMsgId b @ ?c # payloadHash b @ ?c #
             join [?c] (sort (parents b))"
    using split_at_sep[OF _ _ e] assms(1,2) by auto
  have 2: "number_toString (ts a) = number_toString (ts b)" and e2: "xmtpMsgId a @ ?c # payloadHash a @ ?c #
             join [?c] (sort (parents a)) = xmtpMsgId b @ ?c # payloadHash b @ ?c #
             join [?c] (sort (parents b))"
    using split_at_sep[OF number_toString_no_bar number_toString_no_bar e1] by auto
  have 3: "xmtpMsgId a = xmtpMsgId b" and e3: "payloadHash a @ ?c #
             join [?c] (sort (parents a)) = payloadHash b @ ?c #
             join [?c] (sort (parents b))"
    using split_at_sep[OF _ _ e2] assms(1,2) by auto
  have 4: "payloadHash a = payloadHash b" and e4: "join [?c] (sort (parents a)) = join [?c] (sort (parents b))"
    using split_at_sep[OF _ _ e3] assms(1,2) by auto
  have 5: "sort (parents a) = sort (parents b)"
    using join_bar_inj[OF _ _ e4] assms(3) by simp
  show ?thesis using 1 2 3 4 5 number_toString_inj by blast
qed


theorem canonical_unambiguous_witness:
  "canonical (createNode ''x'' [''q'', ''r''] ''a'' 1) = canonical (createNode ''x'' [''r'', ''q''] ''a'' 1)
   \<and> sort (parents (createNode ''x'' [''q'', ''r''] ''a'' 1))
     = sort (parents (createNode ''x'' [''r'', ''q''] ''a'' 1))"
proof -
  let ?a = "createNode ''x'' [''q'', ''r''] ''a'' 1" and ?b = "createNode ''x'' [''r'', ''q''] ''a'' 1"
  have h1: "CHR ''|'' \<notin> set (author ?a) \<union> set (xmtpMsgId ?a) \<union> set (payloadHash ?a)"
    by (simp add: createNode_def)
  have h2: "CHR ''|'' \<notin> set (author ?b) \<union> set (xmtpMsgId ?b) \<union> set (payloadHash ?b)"
    by (simp add: createNode_def)
  have h3: "\<forall>p\<in>set (parents ?a) \<union> set (parents ?b). p \<noteq> [] \<and> CHR ''|'' \<notin> set p"
    by (simp add: createNode_def)
  have h4: "canonical ?a = canonical ?b"
    by (simp add: canonical_def createNode_def)
  show ?thesis using canonical_unambiguous[OF h1 h2 h3 h4] h4 by simp
qed

text \<open>
  Claim C5, as stated, fails: a node with the one parent \<open>q|r\<close> and a node with the two
  parents \<open>q\<close> and \<open>r\<close>, equal otherwise, have the same \<open>canonical\<close> string
  \<open>a|1|x|payload_x|q|r\<close> although their sorted parent lists differ; and so have a
  node without parents and a node whose one parent id is the empty string \<open>[]\<close>.
\<close>

theorem canonical_ambiguous_counterexample:
  "canonical (createNode ''x'' [''q|r''] ''a'' 1) = canonical (createNode ''x'' [''q'', ''r''] ''a'' 1)
   \<and> sort (parents (createNode ''x'' [''q|r''] ''a'' 1))
       \<noteq> sort (parents (createNode ''x'' [''q'', ''r''] ''a'' 1))
   \<and> canonical (createNode ''x'' [] ''a'' 1) = canonical (createNode ''x'' [[]] ''a'' 1)
   \<and> sort (parents (createNode ''x'' [] ''a'' 1)) \<noteq> sort (parents (createNode ''x'' [[]] ''a'' 1))"
  by (simp add: canonical_def createNode_def)

section \<open>The graph store\<close>

text \<open>What \<open>Map.set\<close>, \<open>Map.get\<close> and \<open>Map.has\<close> do to each other.\<close>

lemma map_get_map_set: "map_get (map_set k v m) k' = (if k' = k then Some v else map_get m k')"
  by (induction m) (auto simp: map_get_def)

lemma map_has_iff: "map_has m k \<longleftrightarrow> k \<in> set (map_keys m)"
  by (simp add: map_has_def map_keys_def map_of_eq_None_iff)

lemma map_get_None_iff: "map_get m k = None \<longleftrightarrow> k \<notin> set (map_keys m)"
  by (simp add: map_get_def map_keys_def map_of_eq_None_iff)

lemma map_keys_map_set:
  "map_keys (map_set k v m) = (if k \<in> set (map_keys m) then map_keys m else map_keys m @ [k])"
  by (induction m) (auto simp: map_keys_def rev_image_eqI)

definition children_of :: "(string \<times> string list) list \<Rightarrow> string \<Rightarrow> string list" where
  "children_of es p = (case map_get es p of None \<Rightarrow> [] | Some cs \<Rightarrow> cs)"

lemma getChildren_children_of: "getChildren g p = children_of (edges g) p"
  by (simp add: getChildren_def children_of_def)

lemma children_of_map_set:
  "children_of (map_set q v es) p = (if p = q then v else children_of es p)"
  by (simp add: children_of_def map_get_map_set)

lemma children_of_add_edges:
  "children_of (add_edges i ps es) p = children_of es p @ replicate (count_list ps p) i"
proof (induction ps arbitrary: es)
  case Nil
  then show ?case by simp
next
  case (Cons q ps)
  define es1 where "es1 = (if \<not> map_has es q then map_set q [] es else es)"
  have c1: "children_of es1 r = children_of es r" for r
    by (auto simp: es1_def children_of_map_set)
      (simp add: children_of_def map_has_def map_get_def)
  have s: "add_edges i (q # ps) es = add_edges i ps (map_set q (children_of es1 q @ [i]) es1)"
    by (simp add: es1_def children_of_def Let_def)
  show ?case unfolding s Cons.IH
    by (cases "p = q") (simp_all add: children_of_map_set c1 replicate_append_same)
qed

definition edge_total :: "(string \<times> string list) list \<Rightarrow> nat" where
  "edge_total es = foldl (\<lambda>sum children. sum + length children) 0 (map_values es)"

lemma foldl_length_sum: "foldl (\<lambda>sum children. sum + length children) a xs = a + sum_list (map length xs)"
  by (induction xs arbitrary: a) auto

lemma edge_total_sum: "edge_total es = sum_list (map (length \<circ> snd) es)"
  by (simp add: edge_total_def foldl_length_sum map_values_def)

lemma edge_total_map_set_new: "k \<notin> set (map_keys m) \<Longrightarrow> edge_total (map_set k v m) = edge_total m + length v"
  by (induction m) (auto simp: edge_total_sum map_keys_def)

lemma edge_total_map_set_old:
  "map_get m k = Some old \<Longrightarrow> edge_total (map_set k v m) + length old = edge_total m + length v"
  by (induction m) (auto simp: edge_total_sum map_get_def)

lemma edge_total_add_edges: "edge_total (add_edges i ps es) = edge_total es + length ps"
proof (induction ps arbitrary: es)
  case Nil
  then show ?case by simp
next
  case (Cons q ps)
  show ?case
  proof (cases "map_get es q")
    case None
    then have nk: "q \<notin> set (map_keys es)" by (simp add: map_get_None_iff)
    have "edge_total (map_set q [i] (map_set q [] es)) + length ([]::string list)
        = edge_total (map_set q [] es) + length [i]"
      by (rule edge_total_map_set_old) (simp add: map_get_map_set)
    then show ?thesis using None nk
      by (simp add: Cons.IH map_has_def map_get_def[symmetric] map_get_map_set edge_total_map_set_new)
  next
    case (Some cs)
    then show ?thesis using edge_total_map_set_old[OF Some, of "cs @ [i]"]
      by (simp add: Cons.IH map_has_def map_get_def[symmetric])
  qed
qed

lemma nodes_addNode: "nodes (addNode g n nodeId) = map_set (addNode_id n nodeId) n (nodes g)"
  by (simp add: addNode_def Let_def)

lemma edges_addNode: "edges (addNode g n nodeId) = add_edges (addNode_id n nodeId) (parents n) (edges g)"
  by (simp add: addNode_def Let_def)

lemma rootNodes_addNode:
  "rootNodes (addNode g n nodeId) =
     (if parents n = [] \<and> addNode_id n nodeId \<notin> set (rootNodes g)
      then rootNodes g @ [addNode_id n nodeId] else rootNodes g)"
  by (simp add: addNode_def Let_def)

lemma getChildren_addNode:
  "getChildren (addNode g n nodeId) p
     = getChildren g p @ replicate (count_list (parents n) p) (addNode_id n nodeId)"
  by (simp add: getChildren_children_of edges_addNode children_of_add_edges)

lemma edgeCount_audit: "edgeCount (auditCausality g) = edge_total (edges g)"
  by (simp add: auditCausality_def Let_def edge_total_def)

lemma count_list_distinct: "distinct xs \<Longrightarrow> count_list xs x = (if x \<in> set xs then 1 else 0)"
  by (induction xs) auto

lemma count_list_replicate: "count_list (replicate k x) x = k"
  by (induction k) auto


text \<open>
  Example graphs. \<open>chain_graph\<close> is the scenario root, mid, leaf of the tests;
  in \<open>readded_graph\<close> the node \<open>child\<close> of parent \<open>parent\<close> is added twice, and in
  \<open>readded_root\<close> a parentless node is.
\<close>

definition chain_graph :: DKG where
  "chain_graph =
     addNode (addNode (addNode new_DKG (createNode ''root'' [] ''A'' 1000) None)
       (createNode ''mid'' [''root''] ''B'' 2000) None)
       (createNode ''leaf'' [''mid''] ''A'' 3000) None"

definition parent_graph :: DKG where
  "parent_graph = addNode new_DKG (createNode ''parent'' [] ''0xAuthor'' 1000) None"

text \<open>
  Claim C10. Adding a node twice under the same key with the same parent list leaves
  one entry for the key in the node map (the second node replaces the first), but each
  call pushes the key onto the child list of every parent: afterwards every child list
  holds the key once more per call and per occurrence of the parent in the parent list,
  so at least twice for each parent, and the audit's \<open>edgeCount\<close> has grown by twice the
  number of parents. A parentless node added twice stands once in \<open>rootNodes\<close>. The
  graph is any store whose node keys are distinct (as the keys of a \<open>Map\<close> are) and whose
  \<open>rootNodes\<close> has no duplicate (as \<open>addNode\<close> keeps it).
\<close>

theorem addNode_twice:
  assumes "distinct (map_keys (nodes g))" and "distinct (rootNodes g)"
    and "addNode_id n' nodeId' = addNode_id n nodeId" and "parents n' = parents n"
  shows "count_list (map_keys (nodes (addNode (addNode g n nodeId) n' nodeId'))) (addNode_id n nodeId) = 1
    \<and> map_get (nodes (addNode (addNode g n nodeId) n' nodeId')) (addNode_id n nodeId) = Some n'
    \<and> (\<forall>p. getChildren (addNode (addNode g n nodeId) n' nodeId') p
          = getChildren g p @ replicate (count_list (parents n) p) (addNode_id n nodeId)
              @ replicate (count_list (parents n) p) (addNode_id n nodeId))
    \<and> (\<forall>p\<in>set (parents n).
          2 \<le> count_list (getChildren (addNode (addNode g n nodeId) n' nodeId') p) (addNode_id n nodeId))
    \<and> edgeCount (auditCausality (addNode (addNode g n nodeId) n' nodeId'))
          = edgeCount (auditCausality g) + 2 * length (parents n)
    \<and> (parents n = [] \<longrightarrow>
          count_list (rootNodes (addNode (addNode g n nodeId) n' nodeId')) (addNode_id n nodeId) = 1)"
proof -
  let ?i = "addNode_id n nodeId"
  let ?g2 = "addNode (addNode g n nodeId) n' nodeId'"
  have k: "map_keys (nodes ?g2) = (if ?i \<in> set (map_keys (nodes g)) then map_keys (nodes g) else map_keys (nodes g) @ [?i])"
    by (simp add: nodes_addNode map_keys_map_set assms(3))
  have 1: "count_list (map_keys (nodes ?g2)) ?i = 1"
    using assms(1) by (simp add: k count_list_distinct)
  have 2: "map_get (nodes ?g2) ?i = Some n'"
    by (simp add: nodes_addNode map_get_map_set assms(3))
  have 3: "\<forall>p. getChildren ?g2 p = getChildren g p @ replicate (count_list (parents n) p) ?i
              @ replicate (count_list (parents n) p) ?i"
    by (simp add: getChildren_addNode assms(3,4))
  have 4: "\<forall>p\<in>set (parents n). 2 \<le> count_list (getChildren ?g2 p) ?i"
  proof
    fix p assume "p \<in> set (parents n)"
    then have "1 \<le> count_list (parents n) p"
      using count_list_0_iff[of "parents n" p] by simp
    then show "2 \<le> count_list (getChildren ?g2 p) ?i"
      using 3 by (simp add: count_list_replicate)
  qed
  have 5: "edgeCount (auditCausality ?g2) = edgeCount (auditCausality g) + 2 * length (parents n)"
    by (simp add: edgeCount_audit edges_addNode edge_total_add_edges assms(4))
  have 6: "parents n = [] \<longrightarrow> count_list (rootNodes ?g2) ?i = 1"
    using assms(2) by (auto simp: rootNodes_addNode assms(3,4) count_list_distinct)
  show ?thesis using 1 2 3 4 5 6 by blast
qed

theorem addNode_twice_witness:
  "getChildren (addNode (addNode parent_graph (createNode ''child'' [''parent''] ''0xAuthor'' 2000) None)
      (createNode ''child'' [''parent''] ''0xAuthor'' 2000) None) ''parent'' = [''child'', ''child'']
   \<and> edgeCount (auditCausality
       (addNode (addNode parent_graph (createNode ''child'' [''parent''] ''0xAuthor'' 2000) None)
         (createNode ''child'' [''parent''] ''0xAuthor'' 2000) None)) = 2
   \<and> count_list (map_keys (nodes
       (addNode (addNode parent_graph (createNode ''child'' [''parent''] ''0xAuthor'' 2000) None)
         (createNode ''child'' [''parent''] ''0xAuthor'' 2000) None))) ''child'' = 1
   \<and> count_list (rootNodes
       (addNode (addNode new_DKG (createNode ''parent'' [] ''0xAuthor'' 1000) None)
         (createNode ''parent'' [] ''0xAuthor'' 1000) None)) ''parent'' = 1"
proof -
  let ?c = "createNode ''child'' [''parent''] ''0xAuthor'' 2000"
  let ?r = "createNode ''parent'' [] ''0xAuthor'' 1000"
  have g: "nodes parent_graph = [(''parent'', ?r)]" "edges parent_graph = []"
    "rootNodes parent_graph = [''parent'']"
    by (simp_all add: parent_graph_def addNode_def new_DKG_def Let_def addNode_id_def createNode_def)
  have i: "addNode_id ?c None = ''child''" "parents ?c = [''parent'']"
    "addNode_id ?r None = ''parent''" "parents ?r = []"
    by (simp_all add: addNode_id_def createNode_def)
  have e: "getChildren parent_graph ''parent'' = []" "edgeCount (auditCausality parent_graph) = 0"
    by (simp_all add: getChildren_def map_get_def g edgeCount_audit edge_total_def map_values_def)
  have h1: "distinct (map_keys (nodes parent_graph))" and h2: "distinct (rootNodes parent_graph)"
    by (simp_all add: g map_keys_def)
  have h3: "distinct (map_keys (nodes new_DKG))" and h4: "distinct (rootNodes new_DKG)"
    by (simp_all add: new_DKG_def map_keys_def)
  show ?thesis
    using addNode_twice[OF h1 h2 refl refl, of ?c None] addNode_twice[OF h3 h4 refl refl, of ?r None]
    by (simp add: i e)
qed

section \<open>The thread root\<close>

text \<open>
  The reduction in the words of the specification: one round hashes the concatenation
  of each adjacent pair, left to right, and carries an unpaired last digest over
  unchanged; rounds are repeated until one digest remains.
\<close>

fun hash_pairs :: "'b ethers \<Rightarrow> string list \<Rightarrow> string list" where
  "hash_pairs eth (a # b # rest) = keccak256 eth (concat_hex eth [a, b]) # hash_pairs eth rest"
| "hash_pairs eth [a] = [a]"
| "hash_pairs eth [] = []"


lemma length_hash_pairs: "length (hash_pairs eth ds) = (length ds + 1) div 2"
  by (induction eth ds rule: hash_pairs.induct) auto

function fold_pairwise :: "'b ethers \<Rightarrow> string list \<Rightarrow> string list" where
  "fold_pairwise eth ds = (if length ds \<le> 1 then ds else fold_pairwise eth (hash_pairs eth ds))"
  by pat_completeness auto
termination
  by (relation "measure (\<lambda>(eth, ds). length ds)") (auto simp: length_hash_pairs)

declare fold_pairwise.simps [simp del]

lemma pair_loop_hash_pairs: "pair_loop eth current i nx = nx @ hash_pairs eth (drop i current)"
proof (induction eth current i nx rule: pair_loop.induct)
  case (1 eth current i nx)
  show ?case
  proof (cases "i < length current")
    case False
    then show ?thesis by (subst pair_loop.simps) simp
  next
    case True
    show ?thesis
    proof (cases "i + 1 < length current")
      case t: True
      have d: "drop i current = current ! i # current ! (i + 1) # drop (i + 2) current"
        using t by (metis Cons_nth_drop_Suc Suc_eq_plus1 add_2_eq_Suc' True)
      show ?thesis using 1(1)[OF True t] True t
        by (subst pair_loop.simps) (simp add: d)
    next
      case f: False
      have d: "drop i current = [current ! i]" "drop (i + 2) current = []"
        using True f by (simp_all add: Cons_nth_drop_Suc[symmetric])
      show ?thesis using 1(2)[OF True f] True f
        by (subst pair_loop.simps) (simp add: d)
    qed
  qed
qed

lemma merkle_loop_fold_pairwise: "merkle_loop eth current = fold_pairwise eth current"
proof (induction eth current rule: merkle_loop.induct)
  case (1 eth current)
  show ?case
  proof (cases "length current > 1")
    case True
    then show ?thesis using 1
      by (subst merkle_loop.simps, subst fold_pairwise.simps) (simp add: pair_loop_hash_pairs)
  next
    case False
    then show ?thesis
      by (subst merkle_loop.simps, subst fold_pairwise.simps) simp
  qed
qed

lemma fold_pairwise_single: "ds \<noteq> [] \<Longrightarrow> \<exists>d. fold_pairwise eth ds = [d]"
proof (induction eth ds rule: fold_pairwise.induct)
  case (1 eth ds)
  show ?case
  proof (cases "length ds \<le> 1")
    case True
    then obtain d where "ds = [d]" using 1(2) by (cases ds) auto
    then show ?thesis by (subst fold_pairwise.simps) simp
  next
    case False
    then have "hash_pairs eth ds \<noteq> []"
      using length_hash_pairs[of eth ds] by (cases "hash_pairs eth ds") auto
    then show ?thesis using 1(1)[OF False] False
      by (subst fold_pairwise.simps) simp
  qed
qed

lemma visit_root:
  "map_get (nodes g) i = Some n \<Longrightarrow> parents n = [] \<Longrightarrow>
   visit g \<lparr>visited = {}, result = [], visiting = {}\<rparr> i
     = Inr \<lparr>visited = {i}, result = [n], visiting = {}\<rparr>"
  by (simp add: visit.simps)

lemma topologicalSort_empty: "nodes g = [] \<Longrightarrow> topologicalSort g = Inr []"
  by (simp add: topologicalSort_def map_keys_def)

lemma topologicalSort_single:
  "nodes g = [(i, n)] \<Longrightarrow> parents n = [] \<Longrightarrow> topologicalSort g = Inr [n]"
  using visit_root[of g i n]
  by (simp add: topologicalSort_def map_keys_def map_get_def)


text \<open>
  Claim C1, as the code has it. On a graph without nodes the thread root is the zero
  hash. On a graph of one node without parents it is that node's canonical hash, and so
  it is whenever the topological sort returns one node. Whenever the sort returns two
  nodes or more, the thread root is the one digest that the pairwise reduction of the
  specification leaves of their canonical hashes, taken in the sorted order. Whenever the
  sort fails, \<open>computeThreadRoot\<close> fails with the same error.
\<close>

theorem computeThreadRoot_cases:
  "(nodes g = [] \<longrightarrow> computeThreadRoot eth g = Inr ZeroHash)
   \<and> (\<forall>i n. nodes g = [(i, n)] \<and> parents n = []
         \<longrightarrow> computeThreadRoot eth g = Inr (computeCanonicalHash eth n))
   \<and> (\<forall>n. topologicalSort g = Inr [n]
         \<longrightarrow> computeThreadRoot eth g = Inr (computeCanonicalHash eth n))
   \<and> (\<forall>ns. topologicalSort g = Inr ns \<and> 2 \<le> length ns
         \<longrightarrow> (\<exists>d. fold_pairwise eth (map (computeCanonicalHash eth) ns) = [d]
                 \<and> computeThreadRoot eth g = Inr d))
   \<and> (\<forall>e. topologicalSort g = Inl e \<longrightarrow> computeThreadRoot eth g = Inl e)"
proof -
  have 1: "nodes g = [] \<longrightarrow> computeThreadRoot eth g = Inr ZeroHash"
    by (simp add: computeThreadRoot_def topologicalSort_empty)
  have 3: "\<forall>n. topologicalSort g = Inr [n]
         \<longrightarrow> computeThreadRoot eth g = Inr (computeCanonicalHash eth n)"
    by (simp add: computeThreadRoot_def)
  have 2: "\<forall>i n. nodes g = [(i, n)] \<and> parents n = []
         \<longrightarrow> computeThreadRoot eth g = Inr (computeCanonicalHash eth n)"
    using 3 topologicalSort_single by blast
  have 4: "\<forall>ns. topologicalSort g = Inr ns \<and> 2 \<le> length ns
         \<longrightarrow> (\<exists>d. fold_pairwise eth (map (computeCanonicalHash eth) ns) = [d]
                 \<and> computeThreadRoot eth g = Inr d)"
  proof (intro allI impI)
    fix ns assume a: "topologicalSort g = Inr ns \<and> 2 \<le> length ns"
    then have "map (computeCanonicalHash eth) ns \<noteq> []" by auto
    then obtain d where d: "fold_pairwise eth (map (computeCanonicalHash eth) ns) = [d]"
      using fold_pairwise_single by blast
    have "computeThreadRoot eth g = Inr d"
      using a by (auto simp: computeThreadRoot_def Let_def merkle_loop_fold_pairwise d)
    then show "\<exists>d. fold_pairwise eth (map (computeCanonicalHash eth) ns) = [d]
                 \<and> computeThreadRoot eth g = Inr d" using d by blast
  qed
  have 5: "\<forall>e. topologicalSort g = Inl e \<longrightarrow> computeThreadRoot eth g = Inl e"
    by (simp add: computeThreadRoot_def)
  show ?thesis using 1 2 3 4 5 by blast
qed


theorem computeThreadRoot_cases_witness:
  "computeThreadRoot plain_ethers new_DKG = Inr ZeroHash
   \<and> computeThreadRoot plain_ethers parent_graph
       = Inr (computeCanonicalHash plain_ethers (createNode ''parent'' [] ''0xAuthor'' 1000))
   \<and> topologicalSort chain_graph
       = Inr [createNode ''root'' [] ''A'' 1000, createNode ''mid'' [''root''] ''B'' 2000,
              createNode ''leaf'' [''mid''] ''A'' 3000]
   \<and> computeThreadRoot plain_ethers chain_graph
       = Inr (hd (fold_pairwise plain_ethers (map (computeCanonicalHash plain_ethers)
            [createNode ''root'' [] ''A'' 1000, createNode ''mid'' [''root''] ''B'' 2000,
             createNode ''leaf'' [''mid''] ''A'' 3000])))"
proof -
  have n0: "nodes new_DKG = []" by (simp add: new_DKG_def)
  have n1: "nodes parent_graph = [(''parent'', createNode ''parent'' [] ''0xAuthor'' 1000)]
      \<and> parents (createNode ''parent'' [] ''0xAuthor'' 1000) = []"
    by (simp add: parent_graph_def addNode_def new_DKG_def Let_def addNode_id_def createNode_def)
  have n3: "topologicalSort chain_graph
       = Inr [createNode ''root'' [] ''A'' 1000, createNode ''mid'' [''root''] ''B'' 2000,
              createNode ''leaf'' [''mid''] ''A'' 3000]"
    by code_simp
  show ?thesis
    using computeThreadRoot_cases[of new_DKG plain_ethers] n0
      computeThreadRoot_cases[of parent_graph plain_ethers] n1
      computeThreadRoot_cases[of chain_graph plain_ethers] n3
    by fastforce
qed

text \<open>
  Claim C1, as stated, fails on a graph of one node: a node that names a parent which
  is not in the store makes the sort fail, and the failure is what \<open>computeThreadRoot\<close>
  returns, not the node's hash.
\<close>

definition dangling_graph :: DKG where
  "dangling_graph = addNode new_DKG (createNode ''a'' [''ghost''] ''0xAuthor'' 1000) None"

theorem computeThreadRoot_single_node_counterexample:
  "length (nodes dangling_graph) = 1
   \<and> computeThreadRoot plain_ethers dangling_graph = Inl (NodeNotFound ''ghost'')"
  by code_simp

section \<open>The topological order\<close>

text \<open>
  \<open>node_at g i\<close> is the node stored under the key \<open>i\<close>, \<open>parents_of g c\<close> the parent ids
  of the node stored under \<open>c\<close>, and \<open>parent_rel g\<close> the parent-to-child edges that the
  stored nodes declare. \<open>sort_inv\<close> is the invariant of the traversal: \<open>result\<close> lists the
  nodes of the visited keys, each once, every one after all of its parents.
\<close>

definition node_at :: "DKG \<Rightarrow> string \<Rightarrow> DKGNode" where
  "node_at g i = the (map_get (nodes g) i)"

definition parents_of :: "DKG \<Rightarrow> string \<Rightarrow> string set" where
  "parents_of g c = (case map_get (nodes g) c of None \<Rightarrow> {} | Some n \<Rightarrow> set (parents n))"

definition parent_rel :: "DKG \<Rightarrow> (string \<times> string) set" where
  "parent_rel g = {(p, c). p \<in> parents_of g c}"

definition parents_first :: "DKG \<Rightarrow> string list \<Rightarrow> bool" where
  "parents_first g ids = (\<forall>i<length ids. \<forall>p\<in>parents_of g (ids ! i). \<exists>j<i. ids ! j = p)"

definition sort_inv :: "DKG \<Rightarrow> sort_state \<Rightarrow> string list \<Rightarrow> bool" where
  "sort_inv g st ids \<longleftrightarrow>
     result st = map (node_at g) ids \<and> distinct ids \<and> set ids = visited st
     \<and> set ids \<subseteq> set (map_keys (nodes g)) \<and> parents_first g ids"

lemma parents_first_snoc:
  assumes "parents_first g ids" and "parents_of g c \<subseteq> set ids"
  shows "parents_first g (ids @ [c])"
  unfolding parents_first_def
proof (intro allI impI ballI)
  fix i p assume i: "i < length (ids @ [c])" and p: "p \<in> parents_of g ((ids @ [c]) ! i)"
  show "\<exists>j<i. (ids @ [c]) ! j = p"
  proof (cases "i < length ids")
    case True
    then have "p \<in> parents_of g (ids ! i)" using p by (simp add: nth_append)
    then obtain j where "j < i" "ids ! j = p"
      using assms(1) True unfolding parents_first_def by blast
    then show ?thesis using True by (intro exI[of _ j]) (simp add: nth_append)
  next
    case False
    then have il: "i = length ids" using i by simp
    then have "p \<in> set ids" using p assms(2) by (auto simp: nth_append)
    then obtain j where "j < length ids" "ids ! j = p" by (auto simp: in_set_conv_nth)
    then show ?thesis using il by (intro exI[of _ j]) (simp add: nth_append)
  qed
qed

lemma sort_inv_visiting [simp]: "sort_inv g (st\<lparr>visiting := v\<rparr>) ids = sort_inv g st ids"
  by (simp add: sort_inv_def)

lemma map_get_Some_key: "map_get m k = Some v \<Longrightarrow> k \<in> set (map_keys m)"
proof -
  assume "map_get m k = Some v"
  then have "(k, v) \<in> set m" unfolding map_get_def by (rule map_of_SomeD)
  then show ?thesis unfolding map_keys_def by force
qed

lemma visit_partial:
  "visit g st n = Inr st' \<Longrightarrow> sort_inv g st ids \<Longrightarrow>
     \<exists>ids'. sort_inv g st' (ids @ ids') \<and> set ids' \<inter> visiting st = {} \<and> n \<in> visited st'
       \<and> visiting st' = visiting st"
  "visit_parents g st ps = Inr st'' \<Longrightarrow> sort_inv g st ids \<Longrightarrow>
     \<exists>ids'. sort_inv g st'' (ids @ ids') \<and> set ids' \<inter> visiting st = {} \<and> set ps \<subseteq> visited st''
       \<and> visiting st'' = visiting st"
proof (induction g st n and g st ps arbitrary: st' ids and st'' ids rule: visit_visit_parents.induct)
  case (1 g st nodeId)
  note eq = "1.prems"(1)[unfolded visit.simps[of g st nodeId]]
  show ?case
  proof (cases "nodeId \<in> visiting st")
    case True
    then show ?thesis using eq by simp
  next
    case nv: False
    show ?thesis
    proof (cases "nodeId \<in> visited st")
      case True
      then have "st' = st" using eq nv by simp
      then show ?thesis using "1.prems"(2) True by (intro exI[of _ "[]"]) simp
    next
      case False
      then obtain node where n: "map_get (nodes g) nodeId = Some node"
        using eq nv by (auto split: option.splits)
      then obtain st2 where
        v: "visit_parents g (st\<lparr>visiting := insert nodeId (visiting st)\<rparr>) (parents node) = Inr st2"
        using eq nv False by (auto split: sum.splits)
      have st': "st' = st2\<lparr>visiting := visiting st2 - {nodeId},
          visited := insert nodeId (visited st2), result := result st2 @ [node]\<rparr>"
        using eq nv False n v by simp
      have "sort_inv g (st\<lparr>visiting := insert nodeId (visiting st)\<rparr>) ids"
        using "1.prems"(2) by simp
      from "1.IH"[OF nv False n v this] obtain ids' where
        i: "sort_inv g st2 (ids @ ids')" "set ids' \<inter> insert nodeId (visiting st) = {}"
          "set (parents node) \<subseteq> visited st2" "visiting st2 = insert nodeId (visiting st)"
        by auto
      have nid: "nodeId \<notin> set (ids @ ids')"
        using i(2) False "1.prems"(2) by (auto simp: sort_inv_def)
      have pf: "parents_first g ((ids @ ids') @ [nodeId])"
        using i(1,3) n by (intro parents_first_snoc) (auto simp: sort_inv_def parents_of_def)
      have "sort_inv g st' (ids @ (ids' @ [nodeId]))"
        using i(1) nid pf n map_get_Some_key[OF n]
        by (auto simp: sort_inv_def st' node_at_def)
      moreover have "set (ids' @ [nodeId]) \<inter> visiting st = {}"
        using i(2) nv by auto
      moreover have "nodeId \<in> visited st'" by (simp add: st')
      moreover have "visiting st' = visiting st" using i(4) nv by (auto simp: st')
      ultimately show ?thesis by blast
    qed
  qed
next
  case (2 g st)
  then show ?case by (intro exI[of _ "[]"]) simp
next
  case (3 g st parentId ps)
  from "3.prems"(1) obtain st1 where v: "visit g st parentId = Inr st1"
    and r: "visit_parents g st1 ps = Inr st''"
    by (auto split: sum.splits)
  from "3.IH"(1)[OF v "3.prems"(2)] obtain ids1 where
    a: "sort_inv g st1 (ids @ ids1)" "set ids1 \<inter> visiting st = {}" "parentId \<in> visited st1"
      "visiting st1 = visiting st"
    by auto
  from "3.IH"(2)[OF v r a(1)] obtain ids2 where
    b: "sort_inv g st'' ((ids @ ids1) @ ids2)" "set ids2 \<inter> visiting st1 = {}"
      "set ps \<subseteq> visited st''" "visiting st'' = visiting st1"
    by auto
  have "parentId \<in> visited st''" using a(1,3) b(1) by (auto simp: sort_inv_def)
  then show ?case using a b by (intro exI[of _ "ids1 @ ids2"]) auto
qed

lemma visit_all_partial:
  "visit_all g st ks = Inr st' \<Longrightarrow> sort_inv g st ids \<Longrightarrow> visiting st = {} \<Longrightarrow>
     \<exists>ids'. sort_inv g st' (ids @ ids') \<and> set ks \<subseteq> visited st' \<and> visiting st' = {}"
proof (induction ks arbitrary: st ids)
  case Nil
  then show ?case by (intro exI[of _ "[]"]) simp
next
  case (Cons k ks)
  show ?case
  proof (cases "k \<in> visited st")
    case True
    then have "visit_all g st ks = Inr st'" using Cons.prems(1) by simp
    from Cons.IH[OF this Cons.prems(2,3)] obtain ids' where
      i: "sort_inv g st' (ids @ ids')" "set ks \<subseteq> visited st'" "visiting st' = {}" by auto
    have "k \<in> visited st'" using True Cons.prems(2) i(1) by (auto simp: sort_inv_def)
    then show ?thesis using i by auto
  next
    case False
    then obtain st1 where v: "visit g st k = Inr st1" and r: "visit_all g st1 ks = Inr st'"
      using Cons.prems(1) by (auto split: sum.splits)
    from visit_partial(1)[OF v Cons.prems(2)] obtain ids1 where
      a: "sort_inv g st1 (ids @ ids1)" "k \<in> visited st1" "visiting st1 = visiting st" by auto
    from Cons.IH[OF r a(1)] a(3) Cons.prems(3) obtain ids2 where
      b: "sort_inv g st' ((ids @ ids1) @ ids2)" "set ks \<subseteq> visited st'" "visiting st' = {}" by auto
    have "k \<in> visited st'" using a(1,2) b(1) by (auto simp: sort_inv_def)
    then show ?thesis using b by (intro exI[of _ "ids1 @ ids2"]) auto
  qed
qed

lemma topologicalSort_Inr:
  assumes "topologicalSort g = Inr ns"
  shows "\<exists>ids. ns = map (node_at g) ids \<and> distinct ids \<and> set ids = set (map_keys (nodes g))
    \<and> parents_first g ids"
proof -
  let ?st0 = "\<lparr>visited = {}, result = [], visiting = {}\<rparr>"
  from assms obtain st where v: "visit_all g ?st0 (map_keys (nodes g)) = Inr st" and ns: "ns = result st"
    by (auto simp: topologicalSort_def split: sum.splits)
  have "sort_inv g ?st0 []" by (simp add: sort_inv_def parents_first_def)
  from visit_all_partial[OF v this] obtain ids where
    "sort_inv g st ([] @ ids)" "set (map_keys (nodes g)) \<subseteq> visited st" by auto
  then show ?thesis using ns by (intro exI[of _ ids]) (auto simp: sort_inv_def)
qed

text \<open>
  With every declared parent in the store (\<open>parents_closed\<close>) and no cycle among the
  declared edges, no call of \<open>visit\<close> throws: a key met again while it is being
  visited would be its own ancestor.
\<close>

definition parents_closed :: "DKG \<Rightarrow> bool" where
  "parents_closed g =
     (\<forall>c n. map_get (nodes g) c = Some n \<longrightarrow> set (parents n) \<subseteq> set (map_keys (nodes g)))"

lemma parent_relI: "map_get (nodes g) c = Some n \<Longrightarrow> p \<in> set (parents n) \<Longrightarrow> (p, c) \<in> parent_rel g"
  by (simp add: parent_rel_def parents_of_def)

lemma visit_total:
  "parents_closed g \<Longrightarrow> acyclic (parent_rel g) \<Longrightarrow> n \<in> set (map_keys (nodes g)) \<Longrightarrow>
     \<forall>v\<in>visiting st. (n, v) \<in> (parent_rel g)\<^sup>+ \<Longrightarrow>
     \<exists>st'. visit g st n = Inr st' \<and> visiting st' = visiting st"
  "parents_closed g \<Longrightarrow> acyclic (parent_rel g) \<Longrightarrow> set ps \<subseteq> set (map_keys (nodes g)) \<Longrightarrow>
     \<forall>p\<in>set ps. \<forall>v\<in>visiting st. (p, v) \<in> (parent_rel g)\<^sup>+ \<Longrightarrow>
     \<exists>st'. visit_parents g st ps = Inr st' \<and> visiting st' = visiting st"
proof (induction g st n and g st ps rule: visit_visit_parents.induct)
  case (1 g st nodeId)
  have nv: "nodeId \<notin> visiting st"
  proof
    assume "nodeId \<in> visiting st"
    then have "(nodeId, nodeId) \<in> (parent_rel g)\<^sup>+" using "1.prems"(4) by blast
    then show False using "1.prems"(2) by (simp add: acyclic_def)
  qed
  show ?case
  proof (cases "nodeId \<in> visited st")
    case True
    then show ?thesis using nv by (simp add: visit.simps)
  next
    case False
    obtain node where n: "map_get (nodes g) nodeId = Some node"
      using "1.prems"(3) map_get_None_iff[of "nodes g" nodeId] by (cases "map_get (nodes g) nodeId") auto
    have sub: "set (parents node) \<subseteq> set (map_keys (nodes g))"
      using "1.prems"(1) n unfolding parents_closed_def by blast
    have anc: "\<forall>p\<in>set (parents node). \<forall>v\<in>visiting (st\<lparr>visiting := insert nodeId (visiting st)\<rparr>).
        (p, v) \<in> (parent_rel g)\<^sup>+"
    proof (intro ballI)
      fix p v assume p: "p \<in> set (parents node)"
        and v: "v \<in> visiting (st\<lparr>visiting := insert nodeId (visiting st)\<rparr>)"
      have e: "(p, nodeId) \<in> parent_rel g" using parent_relI[OF n p] .
      show "(p, v) \<in> (parent_rel g)\<^sup>+"
      proof (cases "v = nodeId")
        case True
        then show ?thesis using e by blast
      next
        case f: False
        then have "(nodeId, v) \<in> (parent_rel g)\<^sup>+" using v "1.prems"(4) by simp
        then show ?thesis using e by (rule trancl_into_trancl2[rotated])
      qed
    qed
    from "1.IH"[OF nv False n "1.prems"(1,2) sub anc] obtain st2 where
      s: "visit_parents g (st\<lparr>visiting := insert nodeId (visiting st)\<rparr>) (parents node) = Inr st2"
        "visiting st2 = insert nodeId (visiting st)"
      by auto
    show ?thesis using nv False n s by (simp add: visit.simps)
  qed
next
  case (2 g st)
  then show ?case by simp
next
  case (3 g st parentId ps)
  have "parentId \<in> set (map_keys (nodes g))"
    and "\<forall>v\<in>visiting st. (parentId, v) \<in> (parent_rel g)\<^sup>+"
    using "3.prems"(3,4) by simp_all
  from "3.IH"(1)[OF "3.prems"(1,2) this] obtain st1 where
    v: "visit g st parentId = Inr st1" "visiting st1 = visiting st" by auto
  have "set ps \<subseteq> set (map_keys (nodes g))"
    and "\<forall>p\<in>set ps. \<forall>v\<in>visiting st1. (p, v) \<in> (parent_rel g)\<^sup>+"
    using "3.prems"(3,4) v(2) by simp_all
  from "3.IH"(2)[OF v(1) "3.prems"(1,2) this] obtain st' where
    "visit_parents g st1 ps = Inr st'" "visiting st' = visiting st1" by auto
  then show ?case using v by simp
qed

lemma visit_all_total:
  "parents_closed g \<Longrightarrow> acyclic (parent_rel g) \<Longrightarrow> set ks \<subseteq> set (map_keys (nodes g)) \<Longrightarrow>
   visiting st = {} \<Longrightarrow> \<exists>st'. visit_all g st ks = Inr st'"
proof (induction ks arbitrary: st)
  case Nil
  then show ?case by simp
next
  case (Cons k ks)
  show ?case
  proof (cases "k \<in> visited st")
    case True
    then show ?thesis using Cons by simp
  next
    case False
    have "k \<in> set (map_keys (nodes g))" and "\<forall>v\<in>visiting st. (k, v) \<in> (parent_rel g)\<^sup>+"
      using Cons.prems(3,4) by simp_all
    from visit_total(1)[OF Cons.prems(1,2) this] obtain st1 where
      v: "visit g st k = Inr st1" "visiting st1 = visiting st" by auto
    have "\<exists>st'. visit_all g st1 ks = Inr st'"
      using Cons.IH[OF Cons.prems(1,2)] Cons.prems(3,4) v(2) by simp
    then show ?thesis using False v(1) by simp
  qed
qed

lemma topologicalSort_total:
  "parents_closed g \<Longrightarrow> acyclic (parent_rel g) \<Longrightarrow> \<exists>ns. topologicalSort g = Inr ns"
  using visit_all_total[of g "map_keys (nodes g)" "\<lparr>visited = {}, result = [], visiting = {}\<rparr>"]
  by (auto simp: topologicalSort_def)

lemma node_at_keys:
  "distinct (map_keys m) \<Longrightarrow> map (\<lambda>k. the (map_get m k)) (map_keys m) = map_values m"
  by (auto simp: map_keys_def map_values_def map_get_def)

lemma node_at_perm:
  assumes "distinct (map_keys (nodes g))" "distinct ids" "set ids = set (map_keys (nodes g))"
  shows "mset (map (node_at g) ids) = mset (map_values (nodes g))"
proof -
  have "mset ids = mset (map_keys (nodes g))"
    using assms by (simp add: set_eq_iff_mset_eq_distinct)
  then have "mset (map (node_at g) ids) = mset (map (node_at g) (map_keys (nodes g)))"
    by (metis mset_map)
  moreover have "map (node_at g) (map_keys (nodes g)) = map_values (nodes g)"
    using node_at_keys[OF assms(1)] by (simp add: node_at_def[abs_def])
  ultimately show ?thesis by simp
qed


text \<open>
  Claim C7. For every store with distinct keys in which every declared parent is a key
  and the declared parent-to-child edges have no cycle, \<open>topologicalSort\<close> succeeds; the
  nodes it returns are the nodes stored under a list \<open>ids\<close> of keys that holds every key
  of the store exactly once, so the returned list holds every stored node exactly once
  (as a multiset it is the list of stored nodes); and every parent of the node at an
  index stands at a strictly smaller index.
\<close>

theorem topologicalSort_valid:
  assumes "distinct (map_keys (nodes g))" and "parents_closed g" and "acyclic (parent_rel g)"
  shows "\<exists>ids. topologicalSort g = Inr (map (node_at g) ids)
    \<and> distinct ids \<and> set ids = set (map_keys (nodes g))
    \<and> mset (map (node_at g) ids) = mset (map_values (nodes g))
    \<and> (\<forall>i<length ids. \<forall>p\<in>parents_of g (ids ! i). \<exists>j<i. ids ! j = p)"
proof -
  obtain ns where ns: "topologicalSort g = Inr ns"
    using topologicalSort_total[OF assms(2,3)] by blast
  from topologicalSort_Inr[OF ns] obtain ids where
    i: "ns = map (node_at g) ids" "distinct ids" "set ids = set (map_keys (nodes g))"
      "parents_first g ids" by blast
  show ?thesis
    using ns i node_at_perm[OF assms(1) i(2,3)] unfolding parents_first_def by blast
qed

theorem topologicalSort_valid_witness:
  "distinct (map_keys (nodes chain_graph)) \<and> parents_closed chain_graph
   \<and> acyclic (parent_rel chain_graph)
   \<and> topologicalSort chain_graph
       = Inr [createNode ''root'' [] ''A'' 1000, createNode ''mid'' [''root''] ''B'' 2000,
              createNode ''leaf'' [''mid''] ''A'' 3000]
   \<and> (\<exists>ids. topologicalSort chain_graph = Inr (map (node_at chain_graph) ids)
         \<and> distinct ids \<and> set ids = set (map_keys (nodes chain_graph))
         \<and> mset (map (node_at chain_graph) ids) = mset (map_values (nodes chain_graph))
         \<and> (\<forall>i<length ids. \<forall>p\<in>parents_of chain_graph (ids ! i). \<exists>j<i. ids ! j = p))"
proof -
  have n: "nodes chain_graph =
      [(''root'', createNode ''root'' [] ''A'' 1000), (''mid'', createNode ''mid'' [''root''] ''B'' 2000),
       (''leaf'', createNode ''leaf'' [''mid''] ''A'' 3000)]"
    by (simp add: chain_graph_def addNode_def new_DKG_def Let_def addNode_id_def createNode_def)
  have h1: "distinct (map_keys (nodes chain_graph))"
    by (simp add: n map_keys_def)
  have h2: "parents_closed chain_graph"
    unfolding parents_closed_def n map_get_def map_keys_def
    by (auto simp: createNode_def split: if_splits)
  have "parent_rel chain_graph
      \<subseteq> measure (\<lambda>i. if i = ''root'' then 0 else if i = ''mid'' then 1 else 2)"
    unfolding parent_rel_def parents_of_def n map_get_def
    by (auto simp: createNode_def split: if_splits)
  then have h3: "acyclic (parent_rel chain_graph)"
    by (intro wf_acyclic wf_subset[OF wf_measure])
  have e: "topologicalSort chain_graph
       = Inr [createNode ''root'' [] ''A'' 1000, createNode ''mid'' [''root''] ''B'' 2000,
              createNode ''leaf'' [''mid''] ''A'' 3000]"
    by code_simp
  show ?thesis using topologicalSort_valid[OF h1 h2 h3] h1 h2 h3 e by blast
qed

subsection \<open>What the sort throws\<close>

text \<open>
  An error of the sort is justified by the graph: \<open>CycleDetected x\<close> is only thrown for
  a key \<open>x\<close> that is its own ancestor, and \<open>NodeNotFound q\<close> only for an id \<open>q\<close> that
  some stored node declares as a parent and that is not a key. A sort that returns has
  found every declared parent in the store.
\<close>

lemma visit_visiting:
  "visit g st n = Inr st' \<Longrightarrow> visiting st' = visiting st"
  "visit_parents g st ps = Inr st'' \<Longrightarrow> visiting st'' = visiting st"
proof (induction g st n and g st ps arbitrary: st' and st'' rule: visit_visit_parents.induct)
  case (1 g st nodeId)
  note eq = "1.prems"[unfolded visit.simps[of g st nodeId]]
  show ?case
  proof (cases "nodeId \<in> visiting st \<or> nodeId \<in> visited st")
    case True
    with eq show ?thesis by (auto split: if_splits)
  next
    case False
    then obtain node where n: "map_get (nodes g) nodeId = Some node"
      using eq by (auto split: option.splits)
    then obtain st2 where
      v: "visit_parents g (st\<lparr>visiting := insert nodeId (visiting st)\<rparr>) (parents node) = Inr st2"
      using eq False by (auto split: sum.splits)
    have "visiting st2 = insert nodeId (visiting st)"
      using "1.IH"[OF _ _ n v] False by simp
    moreover have "st' = st2\<lparr>visiting := visiting st2 - {nodeId},
        visited := insert nodeId (visited st2), result := result st2 @ [node]\<rparr>"
      using eq False n v by simp
    ultimately show ?thesis using False by auto
  qed
next
  case (2 g st)
  then show ?case by simp
next
  case (3 g st parentId ps)
  from "3.prems" obtain st1 where v: "visit g st parentId = Inr st1"
    and r: "visit_parents g st1 ps = Inr st''"
    by (auto split: sum.splits)
  show ?case using "3.IH"(1)[OF v] "3.IH"(2)[OF v r] by simp
qed

definition error_justified :: "DKG \<Rightarrow> error \<Rightarrow> bool" where
  "error_justified g e =
     (case e of
        CycleDetected x \<Rightarrow> (x, x) \<in> (parent_rel g)\<^sup>+
      | NodeNotFound q \<Rightarrow> \<not> map_has (nodes g) q \<and> (\<exists>c. q \<in> parents_of g c))"

lemma visit_error:
  "visit g st n = Inl e \<Longrightarrow> \<forall>v\<in>visiting st. (n, v) \<in> (parent_rel g)\<^sup>+ \<Longrightarrow>
     map_has (nodes g) n \<or> (\<exists>c. n \<in> parents_of g c) \<Longrightarrow> error_justified g e"
  "visit_parents g st ps = Inl e \<Longrightarrow> \<forall>p\<in>set ps. \<forall>v\<in>visiting st. (p, v) \<in> (parent_rel g)\<^sup>+ \<Longrightarrow>
     \<forall>p\<in>set ps. \<exists>c. p \<in> parents_of g c \<Longrightarrow> error_justified g e"
proof (induction g st n and g st ps rule: visit_visit_parents.induct)
  case (1 g st nodeId)
  note eq = "1.prems"(1)[unfolded visit.simps[of g st nodeId]]
  show ?case
  proof (cases "nodeId \<in> visiting st")
    case True
    then have "e = CycleDetected nodeId" using eq by simp
    moreover have "(nodeId, nodeId) \<in> (parent_rel g)\<^sup>+" using True "1.prems"(2) by blast
    ultimately show ?thesis by (simp add: error_justified_def)
  next
    case nv: False
    then have nvd: "nodeId \<notin> visited st" using eq by (auto split: if_splits)
    show ?thesis
    proof (cases "map_get (nodes g) nodeId")
      case None
      then have "e = NodeNotFound nodeId" using eq nv nvd by simp
      moreover have "\<not> map_has (nodes g) nodeId" using None by (simp add: map_has_def map_get_def)
      ultimately show ?thesis using "1.prems"(3) by (auto simp: error_justified_def)
    next
      case (Some node)
      then have v: "visit_parents g (st\<lparr>visiting := insert nodeId (visiting st)\<rparr>) (parents node) = Inl e"
        using eq nv nvd by (auto split: sum.splits)
      have anc: "\<forall>p\<in>set (parents node). \<forall>v\<in>visiting (st\<lparr>visiting := insert nodeId (visiting st)\<rparr>).
          (p, v) \<in> (parent_rel g)\<^sup>+"
      proof (intro ballI)
        fix p v assume p: "p \<in> set (parents node)"
          and v: "v \<in> visiting (st\<lparr>visiting := insert nodeId (visiting st)\<rparr>)"
        have e: "(p, nodeId) \<in> parent_rel g" using parent_relI[OF Some p] .
        show "(p, v) \<in> (parent_rel g)\<^sup>+"
        proof (cases "v = nodeId")
          case True
          then show ?thesis using e by blast
        next
          case f: False
          then have "(nodeId, v) \<in> (parent_rel g)\<^sup>+" using v "1.prems"(2) by simp
          then show ?thesis using e by (rule trancl_into_trancl2[rotated])
        qed
      qed
      have ref: "\<forall>p\<in>set (parents node). \<exists>c. p \<in> parents_of g c"
        using Some by (auto simp: parents_of_def intro!: exI[of _ nodeId])
      show ?thesis using "1.IH"[OF nv nvd Some v anc ref] .
    qed
  qed
next
  case (2 g st)
  then show ?case by simp
next
  case (3 g st parentId ps)
  show ?case
  proof (cases "visit g st parentId")
    case (Inl e')
    then have "e' = e" using "3.prems"(1) by simp
    then show ?thesis using "3.IH"(1) Inl "3.prems"(2,3) by simp
  next
    case (Inr st1)
    then have r: "visit_parents g st1 ps = Inl e" using "3.prems"(1) by simp
    have "visiting st1 = visiting st" using visit_visiting(1)[OF Inr] .
    then show ?thesis using "3.IH"(2)[OF Inr r] "3.prems"(2,3) by simp
  qed
qed

lemma visit_all_error:
  "visit_all g st ks = Inl e \<Longrightarrow> visiting st = {} \<Longrightarrow> set ks \<subseteq> set (map_keys (nodes g)) \<Longrightarrow>
   error_justified g e"
proof (induction ks arbitrary: st)
  case Nil
  then show ?case by simp
next
  case (Cons k ks)
  show ?case
  proof (cases "k \<in> visited st")
    case True
    then show ?thesis using Cons by simp
  next
    case False
    show ?thesis
    proof (cases "visit g st k")
      case (Inl e')
      then have "e' = e" using Cons.prems(1) False by simp
      moreover have "map_has (nodes g) k" using Cons.prems(3) by (simp add: map_has_iff)
      ultimately show ?thesis using visit_error(1)[of g st k e] Inl Cons.prems(2) by simp
    next
      case (Inr st1)
      then have r: "visit_all g st1 ks = Inl e" using Cons.prems(1) False by simp
      have "visiting st1 = {}" using visit_visiting(1)[OF Inr] Cons.prems(2) by simp
      then show ?thesis using Cons.IH[OF r] Cons.prems(3) by simp
    qed
  qed
qed

lemma topologicalSort_Inl: "topologicalSort g = Inl e \<Longrightarrow> error_justified g e"
  using visit_all_error[of g "\<lparr>visited = {}, result = [], visiting = {}\<rparr>" "map_keys (nodes g)" e]
  by (auto simp: topologicalSort_def split: sum.splits)

lemma topologicalSort_Inr_closed:
  assumes "topologicalSort g = Inr ns"
  shows "parents_closed g"
proof -
  from topologicalSort_Inr[OF assms] obtain ids where
    i: "set ids = set (map_keys (nodes g))" "parents_first g ids" by blast
  show ?thesis unfolding parents_closed_def
  proof (intro allI impI subsetI)
    fix c n p assume n: "map_get (nodes g) c = Some n" and p: "p \<in> set (parents n)"
    have "c \<in> set ids" using map_get_Some_key[OF n] i(1) by simp
    then obtain k where k: "k < length ids" "ids ! k = c" by (auto simp: in_set_conv_nth)
    have "p \<in> parents_of g (ids ! k)" using n p k by (simp add: parents_of_def)
    then obtain j where "j < k" "ids ! j = p" using i(2) k(1) unfolding parents_first_def by blast
    then have "p \<in> set ids" using k(1) by (metis nth_mem order_less_trans)
    then show "p \<in> set (map_keys (nodes g))" using i(1) by simp
  qed
qed

section \<open>The audit\<close>

text \<open>
  The entries of the issue list in the words of the specification: \<open>missing_refs\<close>
  lists the references (child key, parent id) to a parent that is not in the store,
  \<open>late_parents\<close> the references to a stored parent whose timestamp exceeds the child's;
  both follow the order of the store and of the parent lists, and a reference that is
  repeated in a parent list is listed as often.
\<close>

definition missing_refs :: "DKG \<Rightarrow> (string \<times> string) list" where
  "missing_refs g =
     concat (map (\<lambda>(c, n). map (\<lambda>p. (c, p)) (filter (\<lambda>p. \<not> map_has (nodes g) p) (parents n)))
       (nodes g))"

definition late_parent :: "DKG \<Rightarrow> DKGNode \<Rightarrow> string \<Rightarrow> DKGNode list" where
  "late_parent g n p =
     (case map_get (nodes g) p of None \<Rightarrow> [] | Some pn \<Rightarrow> if ts pn > ts n then [pn] else [])"

definition late_parents :: "DKG \<Rightarrow> (string \<times> DKGNode \<times> string \<times> DKGNode) list" where
  "late_parents g =
     concat (map (\<lambda>(c, n). concat (map (\<lambda>p. map (\<lambda>pn. (c, n, p, pn)) (late_parent g n p)) (parents n)))
       (nodes g))"

lemma check_parents_eq:
  "check_parents g c ps acc =
     acc @ map (\<lambda>p. missing_parent_issue c p) (filter (\<lambda>p. \<not> map_has (nodes g) p) ps)"
  by (induction ps arbitrary: acc) simp_all

lemma check_all_parents_eq:
  "check_all_parents g ns acc =
     acc @ map (\<lambda>(c, p). missing_parent_issue c p)
       (concat (map (\<lambda>(c, n). map (\<lambda>p. (c, p)) (filter (\<lambda>p. \<not> map_has (nodes g) p) (parents n))) ns))"
  by (induction g ns acc rule: check_all_parents.induct) (simp_all add: check_parents_eq comp_def)

lemma check_timestamps_eq:
  "check_timestamps g c n ps acc =
     acc @ map (\<lambda>(c, n, p, pn). timestamp_issue c n p pn)
       (concat (map (\<lambda>p. map (\<lambda>pn. (c, n, p, pn)) (late_parent g n p)) ps))"
  by (induction ps arbitrary: acc) (simp_all add: late_parent_def split: option.splits)

lemma check_all_timestamps_eq:
  "check_all_timestamps g ns acc =
     acc @ map (\<lambda>(c, n, p, pn). timestamp_issue c n p pn)
       (concat (map (\<lambda>(c, n). concat (map (\<lambda>p. map (\<lambda>pn. (c, n, p, pn)) (late_parent g n p)) (parents n))) ns))"
  by (induction g ns acc rule: check_all_timestamps.induct) (simp_all add: check_timestamps_eq)

lemma issues_auditCausality:
  "issues (auditCausality g) =
     map (\<lambda>(c, p). missing_parent_issue c p) (missing_refs g)
     @ map (\<lambda>(c, n, p, pn). timestamp_issue c n p pn) (late_parents g)
     @ (case topologicalSort g of Inl e \<Rightarrow> [sort_issue e] | Inr ns \<Rightarrow> [])"
  by (simp add: auditCausality_def Let_def check_all_parents_eq check_all_timestamps_eq
      missing_refs_def late_parents_def split: sum.splits)

lemma passed_auditCausality: "passed (auditCausality g) = (issues (auditCausality g) = [])"
  by (simp add: auditCausality_def Let_def)


text \<open>
  Two graphs that fail the audit: in \<open>audit_example\<close> the node \<open>a\<close> declares the absent
  parent \<open>ghost\<close> and the later parent \<open>b\<close>; \<open>cycle_graph\<close> is the two-node cycle of the
  tests.
\<close>

definition audit_example :: DKG where
  "audit_example =
     addNode (addNode new_DKG (createNode ''a'' [''ghost'', ''b''] ''0xAuthor'' 2000) None)
       (createNode ''b'' [] ''0xAuthor'' 3000) None"

definition cycle_graph :: DKG where
  "cycle_graph =
     addNode (addNode new_DKG (createNode ''node1'' [''node2''] ''0xAuthor'' 1000) None)
       (createNode ''node2'' [''node1''] ''0xAuthor'' 1000) None"

text \<open>
  Claim C3. \<open>auditCausality\<close> is a function of the graph that returns a report and
  nothing else: it has no error result, because the one call that can throw stands in a
  \<open>try\<close> whose \<open>catch\<close> records the error, and it has no updated graph, because it only
  reads (\<open>entries\<close>, \<open>has\<close>, \<open>get\<close>, \<open>topologicalSort\<close>, \<open>values\<close>). Its issue list is, in
  this order: one entry per reference to a missing parent, one entry per reference to a
  stored parent whose timestamp exceeds the child's, and one entry when the topological
  sort fails (with the cycle error, and with the not-found error as well). \<open>passed\<close> is
  true exactly when the list is empty; the three counts are the number of stored nodes,
  the sum of the lengths of the child lists, and the length of \<open>rootNodes\<close>.
\<close>

theorem auditCausality_report:
  "issues (auditCausality g) =
     map (\<lambda>(c, p). missing_parent_issue c p) (missing_refs g)
     @ map (\<lambda>(c, n, p, pn). timestamp_issue c n p pn) (late_parents g)
     @ (case topologicalSort g of Inl e \<Rightarrow> [sort_issue e] | Inr ns \<Rightarrow> [])
   \<and> length (issues (auditCausality g)) =
       length (missing_refs g) + length (late_parents g)
       + (case topologicalSort g of Inl e \<Rightarrow> 1 | Inr ns \<Rightarrow> 0)
   \<and> passed (auditCausality g) = (issues (auditCausality g) = [])
   \<and> nodeCount (auditCausality g) = length (nodes g)
   \<and> edgeCount (auditCausality g) = sum_list (map (\<lambda>(p, cs). length cs) (edges g))
   \<and> rootNodeCount (auditCausality g) = length (rootNodes g)"
proof -
  have "edgeCount (auditCausality g) = sum_list (map (\<lambda>(p, cs). length cs) (edges g))"
    by (simp add: edgeCount_audit edge_total_sum comp_def split_def)
  moreover have "nodeCount (auditCausality g) = length (nodes g)"
    "rootNodeCount (auditCausality g) = length (rootNodes g)"
    by (simp_all add: auditCausality_def Let_def)
  moreover have "length (issues (auditCausality g)) =
       length (missing_refs g) + length (late_parents g)
       + (case topologicalSort g of Inl e \<Rightarrow> 1 | Inr ns \<Rightarrow> 0)"
    by (simp add: issues_auditCausality split: sum.splits)
  ultimately show ?thesis
    using issues_auditCausality[of g] passed_auditCausality[of g] by simp
qed


theorem auditCausality_report_witness:
  "issues (auditCausality audit_example)
     = [''Node a references missing parent ghost'',
        ''Node a has timestamp 2000 before parent b (3000)'',
        ''Cycle detected in DKG: Node ghost not found'']
   \<and> passed (auditCausality audit_example) = False
   \<and> nodeCount (auditCausality audit_example) = 2
   \<and> edgeCount (auditCausality audit_example) = 2
   \<and> rootNodeCount (auditCausality audit_example) = 1
   \<and> issues (auditCausality cycle_graph)
       = [''Cycle detected in DKG: Cycle detected in DKG at node node1'']
   \<and> passed (auditCausality cycle_graph) = False
   \<and> issues (auditCausality chain_graph) = []
   \<and> passed (auditCausality chain_graph) = True"
proof -
  have m: "map (\<lambda>(c, p). missing_parent_issue c p) (missing_refs audit_example)
      = [''Node a references missing parent ghost'']"
    by code_simp
  have l: "map (\<lambda>(c, n, p, pn). timestamp_issue c n p pn) (late_parents audit_example)
      = [''Node a has timestamp 2000 before parent b (3000)'']"
    by code_simp
  have t: "topologicalSort audit_example = Inl (NodeNotFound ''ghost'')"
    by code_simp
  have s: "sort_issue (NodeNotFound ''ghost'') = ''Cycle detected in DKG: Node ghost not found''"
    by code_simp
  have c: "length (nodes audit_example) = 2" "length (rootNodes audit_example) = 1"
    "sum_list (map (\<lambda>(p, cs). length cs) (edges audit_example)) = 2"
    by code_simp+
  have 1: "issues (auditCausality audit_example)
     = [''Node a references missing parent ghost'',
        ''Node a has timestamp 2000 before parent b (3000)'',
        ''Cycle detected in DKG: Node ghost not found'']
   \<and> passed (auditCausality audit_example) = False
   \<and> nodeCount (auditCausality audit_example) = 2
   \<and> edgeCount (auditCausality audit_example) = 2
   \<and> rootNodeCount (auditCausality audit_example) = 1"
    using auditCausality_report[of audit_example] by (simp add: m l t s c)
  have mc: "missing_refs cycle_graph = []" "late_parents cycle_graph = []"
    "topologicalSort cycle_graph = Inl (CycleDetected ''node1'')"
    "sort_issue (CycleDetected ''node1'')
       = ''Cycle detected in DKG: Cycle detected in DKG at node node1''"
    by code_simp+
  have 2: "issues (auditCausality cycle_graph)
       = [''Cycle detected in DKG: Cycle detected in DKG at node node1'']
   \<and> passed (auditCausality cycle_graph) = False"
    using auditCausality_report[of cycle_graph] by (simp add: mc)
  have mk: "missing_refs chain_graph = []" "late_parents chain_graph = []"
    "topologicalSort chain_graph
       = Inr [createNode ''root'' [] ''A'' 1000, createNode ''mid'' [''root''] ''B'' 2000,
              createNode ''leaf'' [''mid''] ''A'' 3000]"
    by code_simp+
  have 3: "issues (auditCausality chain_graph) = [] \<and> passed (auditCausality chain_graph) = True"
    using auditCausality_report[of chain_graph] by (simp add: mk)
  show ?thesis using 1 2 3 by simp
qed

subsection \<open>A declared parent that is not in the store\<close>

lemma missing_refs_mem:
  "(c, n) \<in> set (nodes g) \<Longrightarrow> p \<in> set (parents n) \<Longrightarrow> \<not> map_has (nodes g) p \<Longrightarrow>
   (c, p) \<in> set (missing_refs g)"
proof -
  assume a: "(c, n) \<in> set (nodes g)" "p \<in> set (parents n)" "\<not> map_has (nodes g) p"
  have "(c, p) \<in> set (map (\<lambda>p. (c, p)) (filter (\<lambda>p. \<not> map_has (nodes g) p) (parents n)))"
    using a(2,3) by simp
  then show ?thesis unfolding missing_refs_def set_concat set_map
    using a(1) by (intro UN_I[of "(\<lambda>(c, n). map (\<lambda>p. (c, p)) (filter (\<lambda>p. \<not> map_has (nodes g) p) (parents n))) (c, n)"]) auto
qed


text \<open>
  Claim C8, as the code has it. Whenever a stored node declares a parent that is not a
  key of the store (the keys being distinct), \<open>topologicalSort\<close> fails and returns no
  order. Its error is \<open>NodeNotFound q\<close> for an id \<open>q\<close> that is declared as a parent and
  is not in the store (the message names \<open>q\<close> and no child), or \<open>CycleDetected x\<close> for
  a key \<open>x\<close> on a cycle, when the traversal meets a cycle first. The audit does not skip
  the reference: its issue list holds the entry that names the child and the missing
  parent, and \<open>passed\<close> is false.
\<close>

theorem missing_parent_reported:
  assumes "distinct (map_keys (nodes g))" and "(c, n) \<in> set (nodes g)"
    and "p \<in> set (parents n)" and "\<not> map_has (nodes g) p"
  shows "\<exists>e. topologicalSort g = Inl e
    \<and> (case e of
          CycleDetected x \<Rightarrow> (x, x) \<in> (parent_rel g)\<^sup>+
        | NodeNotFound q \<Rightarrow> \<not> map_has (nodes g) q \<and> (\<exists>c. q \<in> parents_of g c))
    \<and> missing_parent_issue c p \<in> set (issues (auditCausality g))
    \<and> \<not> passed (auditCausality g)"
proof -
  have n: "map_get (nodes g) c = Some n"
    using assms(1,2) by (simp add: map_get_def map_keys_def)
  have "\<not> parents_closed g"
    using n assms(3,4) by (auto simp: parents_closed_def map_has_iff)
  then obtain e where e: "topologicalSort g = Inl e"
    using topologicalSort_Inr_closed[of g] by (cases "topologicalSort g") auto
  have j: "error_justified g e" using topologicalSort_Inl[OF e] .
  have m: "missing_parent_issue c p \<in> set (issues (auditCausality g))"
  proof -
    have "(\<lambda>(c, p). missing_parent_issue c p) (c, p) \<in> (\<lambda>(c, p). missing_parent_issue c p) ` set (missing_refs g)"
      using missing_refs_mem[OF assms(2,3,4)] by (rule imageI)
    then show ?thesis by (simp add: issues_auditCausality)
  qed
  have s: "sort_issue e \<in> set (issues (auditCausality g))"
    by (simp add: issues_auditCausality e)
  have "\<not> passed (auditCausality g)" using s by (auto simp: passed_auditCausality)
  then show ?thesis using e j m unfolding error_justified_def by blast
qed

theorem missing_parent_reported_witness:
  "distinct (map_keys (nodes dangling_graph))
   \<and> (''a'', createNode ''a'' [''ghost''] ''0xAuthor'' 1000) \<in> set (nodes dangling_graph)
   \<and> ''ghost'' \<in> set (parents (createNode ''a'' [''ghost''] ''0xAuthor'' 1000))
   \<and> \<not> map_has (nodes dangling_graph) ''ghost''
   \<and> (\<exists>e. topologicalSort dangling_graph = Inl e
         \<and> missing_parent_issue ''a'' ''ghost'' \<in> set (issues (auditCausality dangling_graph))
         \<and> \<not> passed (auditCausality dangling_graph))"
proof -
  have n: "nodes dangling_graph = [(''a'', createNode ''a'' [''ghost''] ''0xAuthor'' 1000)]"
    by (simp add: dangling_graph_def addNode_def new_DKG_def Let_def addNode_id_def createNode_def)
  have h1: "distinct (map_keys (nodes dangling_graph))" by (simp add: n map_keys_def)
  have h2: "(''a'', createNode ''a'' [''ghost''] ''0xAuthor'' 1000) \<in> set (nodes dangling_graph)"
    by (simp add: n)
  have h3: "''ghost'' \<in> set (parents (createNode ''a'' [''ghost''] ''0xAuthor'' 1000))"
    by (simp add: createNode_def)
  have h4: "\<not> map_has (nodes dangling_graph) ''ghost''" by (simp add: n map_has_def)
  show ?thesis using missing_parent_reported[OF h1 h2 h3 h4] h1 h2 h3 h4 by blast
qed

text \<open>
  Claim C8, as stated, fails. The error of the sort names the missing parent only: the
  graph whose one node \<open>a\<close> declares the absent parent \<open>ghost\<close> and the graph whose one
  node \<open>b\<close> does so fail with the same error, \<open>Node ghost not found\<close>. The audit reports
  the reference with child and parent, and reports the error of the sort a second time
  under the heading of a cycle.
\<close>

theorem missing_parent_error_counterexample:
  "topologicalSort dangling_graph = Inl (NodeNotFound ''ghost'')
   \<and> message (NodeNotFound ''ghost'') = ''Node ghost not found''
   \<and> topologicalSort (addNode new_DKG (createNode ''b'' [''ghost''] ''0xAuthor'' 1000) None)
       = Inl (NodeNotFound ''ghost'')
   \<and> issues (auditCausality dangling_graph)
       = [''Node a references missing parent ghost'', ''Cycle detected in DKG: Node ghost not found'']"
  by code_simp

section \<open>Descendant counts and contribution weights\<close>

text \<open>
  \<open>child_rel g\<close> are the forward edges of the store and \<open>descendants g n\<close> the nodes
  other than \<open>n\<close> that a path of forward edges reaches from \<open>n\<close>. In \<open>diamond_graph\<close>
  the node \<open>leaf\<close> has the two parents \<open>a\<close> and \<open>b\<close>, both children of \<open>root\<close>.
\<close>

definition diamond_graph :: DKG where
  "diamond_graph =
     addNode (addNode (addNode (addNode new_DKG (createNode ''root'' [] ''0xAuthor'' 1000) None)
       (createNode ''a'' [''root''] ''0xAuthor'' 2000) None)
       (createNode ''b'' [''root''] ''0xAuthor'' 2000) None)
       (createNode ''leaf'' [''a'', ''b''] ''0xAuthor'' 3000) None"

definition child_rel :: "DKG \<Rightarrow> (string \<times> string) set" where
  "child_rel g = {(a, b). b \<in> set (getChildren g a)}"

definition descendants :: "DKG \<Rightarrow> string \<Rightarrow> string set" where
  "descendants g n = {m. (n, m) \<in> (child_rel g)\<^sup>+ \<and> m \<noteq> n}"

lemma diamond_edges:
  "edges diamond_graph = [(''root'', [''a'', ''b'']), (''a'', [''leaf'']), (''b'', [''leaf''])]"
  by (simp add: diamond_graph_def addNode_def new_DKG_def Let_def addNode_id_def createNode_def
      map_has_def map_get_def)

lemma diamond_child_rel:
  "child_rel diamond_graph
     = {(''root'', ''a''), (''root'', ''b''), (''a'', ''leaf''), (''b'', ''leaf'')}"
  unfolding child_rel_def getChildren_def map_get_def diamond_edges
  by (auto split: if_splits)

lemma diamond_descendants: "descendants diamond_graph ''root'' = {''a'', ''b'', ''leaf''}"
proof
  show "descendants diamond_graph ''root'' \<subseteq> {''a'', ''b'', ''leaf''}"
  proof
    fix m assume "m \<in> descendants diamond_graph ''root''"
    then have "(''root'', m) \<in> (child_rel diamond_graph)\<^sup>+" by (simp add: descendants_def)
    then have "m \<in> Range (child_rel diamond_graph)"
      by (metis Range_iff trancl.cases)
    then show "m \<in> {''a'', ''b'', ''leaf''}" by (auto simp: diamond_child_rel)
  qed
next
  have 1: "(''root'', ''a'') \<in> (child_rel diamond_graph)\<^sup>+"
    and 2: "(''root'', ''b'') \<in> (child_rel diamond_graph)\<^sup>+"
    by (simp_all add: diamond_child_rel r_into_trancl)
  have "(''a'', ''leaf'') \<in> child_rel diamond_graph" by (simp add: diamond_child_rel)
  with 1 have 3: "(''root'', ''leaf'') \<in> (child_rel diamond_graph)\<^sup>+" by (rule trancl_into_trancl)
  show "{''a'', ''b'', ''leaf''} \<subseteq> descendants diamond_graph ''root''"
    using 1 2 3 by (simp add: descendants_def)
qed


text \<open>
  Claim C4 at the diamond. \<open>count\<close> adds \<open>children.length\<close> for every node it visits,
  before it looks whether a child was visited already: it counts the edges that leave
  the visited nodes. From \<open>root\<close> these are four, while \<open>root\<close> has three descendants:
  \<open>leaf\<close>, reached through \<open>a\<close> and through \<open>b\<close>, is counted twice.
\<close>

theorem countDescendants_diamond:
  "countDescendants diamond_graph ''root'' = 4
   \<and> card (descendants diamond_graph ''root'') = 3"
proof -
  have "countDescendants diamond_graph ''root'' = 4" by code_simp
  moreover have "card (descendants diamond_graph ''root'') = 3"
    by (simp add: diamond_descendants)
  ultimately show ?thesis by simp
qed

subsection \<open>Rounding to binary64\<close>

text \<open>
  What \<open>round_double\<close> guarantees for a positive real: the result has the same
  exponent or is the next power of two, its relative error is at most \<open>2 ^ - 53\<close>,
  rounding is monotone, and a rounded value is a fixed point.
\<close>

lemma pow2_pos [simp]: "0 < (2::real) powi e"
  by simp

lemma pow2_Suc: "(2::real) powi (e + 1) = 2 * 2 powi e"
  by (simp add: power_int_add_1)

lemma pow2_pred: "(2::real) powi (e - 1) = 2 powi e / 2"
  using pow2_Suc[of "e - 1"] by simp

lemma pow2_mono: "a \<le> b \<Longrightarrow> (2::real) powi a \<le> 2 powi b"
  by (rule power_int_increasing) simp_all

lemma pow2_strict_mono: "a < b \<Longrightarrow> (2::real) powi a < 2 powi b"
  by (rule power_int_strict_increasing) simp_all

lemma exp_down_bounds:
  "1 \<le> x \<Longrightarrow> 2 powi (exp_down x) \<le> x \<and> x < 2 powi (exp_down x + 1)"
proof (induction x rule: exp_down.induct)
  case (1 x)
  show ?case
  proof (cases "x < 2")
    case True
    then show ?thesis using "1.prems" by (simp add: exp_down.simps[of x])
  next
    case False
    then have h: "1 \<le> x / 2" by simp
    have e: "exp_down x = exp_down (x / 2) + 1" using False by (simp add: exp_down.simps[of x])
    from "1.IH"[OF False h] have "2 powi (exp_down (x / 2)) \<le> x / 2"
      and "x / 2 < 2 powi (exp_down (x / 2) + 1)" by simp_all
    then show ?thesis unfolding e pow2_Suc by simp
  qed
qed

lemma exp_up_bounds:
  "0 < x \<Longrightarrow> x < 1 \<Longrightarrow> 2 powi (exp_up x) \<le> x \<and> x < 2 powi (exp_up x + 1)"
proof (induction x rule: exp_up.induct)
  case (1 x)
  have n: "\<not> (x \<le> 0 \<or> 1 \<le> x)" using "1.prems" by simp
  have e: "exp_up x = exp_up (2 * x) - 1" using n by (simp add: exp_up.simps[of x])
  show ?case
  proof (cases "2 * x < 1")
    case True
    have p: "0 < 2 * x" using "1.prems" by simp
    from "1.IH"[OF n p True] have "2 powi (exp_up (2 * x)) \<le> 2 * x"
      and "2 * x < 2 powi (exp_up (2 * x) + 1)" by simp_all
    then show ?thesis unfolding e by (simp add: pow2_pred pow2_Suc)
  next
    case False
    then have "exp_up (2 * x) = 0" by (simp add: exp_up.simps[of "2 * x"])
    then show ?thesis unfolding e using False "1.prems" by (simp add: pow2_pred)
  qed
qed

lemma exponent_bounds:
  "0 < x \<Longrightarrow> 2 powi (exponent x) \<le> x \<and> x < 2 powi (exponent x + 1)"
  using exp_down_bounds[of x] exp_up_bounds[of x] by (simp add: exponent_def)

lemma exponent_unique:
  assumes "0 < x" and "2 powi e \<le> x" and "x < 2 powi (e + 1)"
  shows "exponent x = e"
proof (rule ccontr)
  assume ne: "exponent x \<noteq> e"
  note b = exponent_bounds[OF assms(1)]
  show False
  proof (cases "exponent x < e")
    case True
    then have "(2::real) powi (exponent x + 1) \<le> 2 powi e" by (intro pow2_mono) simp
    then show False using b assms(2) by simp
  next
    case False
    then have "e + 1 \<le> exponent x" using ne by simp
    then have "(2::real) powi (e + 1) \<le> 2 powi (exponent x)" by (rule pow2_mono)
    then show False using b assms(3) by simp
  qed
qed

lemma exponent_mono: "0 < x \<Longrightarrow> x \<le> y \<Longrightarrow> exponent x \<le> exponent y"
proof (rule ccontr)
  assume x: "0 < x" "x \<le> y" and "\<not> exponent x \<le> exponent y"
  then have "exponent y + 1 \<le> exponent x" by simp
  then have "(2::real) powi (exponent y + 1) \<le> 2 powi (exponent x)" by (rule pow2_mono)
  then show False using exponent_bounds[of x] exponent_bounds[of y] x by simp
qed

lemma round_even_cases:
  "round_even q = \<lfloor>q\<rfloor> \<or> round_even q = \<lfloor>q\<rfloor> + 1"
  by (simp add: round_even_def Let_def)

lemma round_even_near: "\<bar>of_int (round_even q) - q\<bar> \<le> 1 / 2"
proof -
  have "of_int \<lfloor>q\<rfloor> \<le> q" "q < of_int \<lfloor>q\<rfloor> + 1" by linarith+
  then show ?thesis by (auto simp: round_even_def Let_def)
qed

lemma round_even_of_int [simp]: "round_even (of_int n) = n"
  by (simp add: round_even_def)

lemma round_even_mono: "q \<le> q' \<Longrightarrow> round_even q \<le> round_even q'"
proof -
  assume le: "q \<le> q'"
  have f: "\<lfloor>q\<rfloor> \<le> \<lfloor>q'\<rfloor>" using le by (rule floor_mono)
  show ?thesis
  proof (cases "\<lfloor>q\<rfloor> = \<lfloor>q'\<rfloor>")
    case True
    then show ?thesis using le by (auto simp: round_even_def Let_def)
  next
    case False
    then have "\<lfloor>q\<rfloor> + 1 \<le> \<lfloor>q'\<rfloor>" using f by simp
    moreover have "round_even q \<le> \<lfloor>q\<rfloor> + 1" using round_even_cases[of q] by auto
    moreover have "\<lfloor>q'\<rfloor> \<le> round_even q'" using round_even_cases[of q'] by auto
    ultimately show ?thesis by simp
  qed
qed


lemma ulp_scale:
  "(2::real) powi e = 2 ^ 52 * 2 powi (e - 52)"
  "(2::real) powi (e + 1) = 2 ^ 53 * 2 powi (e - 52)"
proof -
  have "(2::real) powi (e - 52) = 2 powi e / 2 powi 52" by (rule power_int_diff) simp
  then show "(2::real) powi e = 2 ^ 52 * 2 powi (e - 52)" by simp
  then show "(2::real) powi (e + 1) = 2 ^ 53 * 2 powi (e - 52)" by (simp add: pow2_Suc)
qed

lemma round_double_pos:
  "0 < x \<Longrightarrow> round_double x
     = of_int (round_even (x / 2 powi (exponent x - 52))) * 2 powi (exponent x - 52)"
  by (simp add: round_double_def Let_def)

lemma mantissa_bounds:
  assumes "0 < x"
  shows "2 ^ 52 \<le> round_even (x / 2 powi (exponent x - 52))"
    and "round_even (x / 2 powi (exponent x - 52)) \<le> 2 ^ 53"
proof -
  define U :: real where "U = 2 powi (exponent x - 52)"
  have U: "0 < U" by (simp add: U_def)
  have b: "2 ^ 52 * U \<le> x" "x < 2 ^ 53 * U"
    using exponent_bounds[OF assms] ulp_scale[of "exponent x"] by (simp_all add: U_def)
  have "of_int (2 ^ 52) \<le> x / U" using b(1) U by (simp add: pos_le_divide_eq)
  then have "round_even (of_int (2 ^ 52)) \<le> round_even (x / U)" by (rule round_even_mono)
  then show "2 ^ 52 \<le> round_even (x / 2 powi (exponent x - 52))"
    unfolding round_even_of_int U_def .
  have "x / U \<le> of_int (2 ^ 53)" using b(2) U by (simp add: pos_divide_le_eq)
  then have "round_even (x / U) \<le> round_even (of_int (2 ^ 53))" by (rule round_even_mono)
  then show "round_even (x / 2 powi (exponent x - 52)) \<le> 2 ^ 53"
    unfolding round_even_of_int U_def .
qed

lemma round_double_bounds:
  assumes "0 < x"
  shows "2 powi (exponent x) \<le> round_double x" and "round_double x \<le> 2 powi (exponent x + 1)"
proof -
  define U :: real where "U = 2 powi (exponent x - 52)"
  define n where "n = round_even (x / U)"
  have U: "0 < U" by (simp add: U_def)
  have r: "round_double x = of_int n * U" using round_double_pos[OF assms] by (simp add: n_def U_def)
  have n: "2 ^ 52 \<le> n" "n \<le> 2 ^ 53" using mantissa_bounds[OF assms] by (simp_all add: n_def U_def)
  have "(of_int (2 ^ 52) :: real) \<le> of_int n" using n(1) by (simp only: of_int_le_iff)
  then have "(2 ^ 52 :: real) \<le> of_int n" by simp
  then have "2 ^ 52 * U \<le> of_int n * U" using U by (simp only: mult_le_cancel_right_pos)
  then show "2 powi (exponent x) \<le> round_double x"
    unfolding r ulp_scale(1)[of "exponent x"] U_def .
  have "(of_int n :: real) \<le> of_int (2 ^ 53)" using n(2) by (simp only: of_int_le_iff)
  then have "of_int n \<le> (2 ^ 53 :: real)" by simp
  then have "of_int n * U \<le> 2 ^ 53 * U" using U by (simp only: mult_le_cancel_right_pos)
  then show "round_double x \<le> 2 powi (exponent x + 1)"
    unfolding r ulp_scale(2)[of "exponent x"] U_def .
qed

lemma round_double_gt0: "0 < x \<Longrightarrow> 0 < round_double x"
  using round_double_bounds(1)[of x] pow2_pos[of "exponent x"] by linarith

lemma round_double_0 [simp]: "round_double 0 = 0"
  by (simp add: round_double_def)

lemma round_double_error:
  assumes "0 < x"
  shows "\<bar>round_double x - x\<bar> \<le> x / 2 ^ 53"
proof -
  define U :: real where "U = 2 powi (exponent x - 52)"
  define n where "n = round_even (x / U)"
  have U: "0 < U" by (simp add: U_def)
  have r: "round_double x = of_int n * U" using round_double_pos[OF assms] by (simp add: n_def U_def)
  have "round_double x - x = (of_int n - x / U) * U" using U by (simp add: r algebra_simps)
  then have "\<bar>round_double x - x\<bar> = \<bar>of_int n - x / U\<bar> * U" using U by (simp add: abs_mult)
  also have "\<dots> \<le> 1 / 2 * U"
    using round_even_near[of "x / U"] U unfolding n_def by (intro mult_right_mono) simp_all
  also have "\<dots> = 2 powi (exponent x) / 2 ^ 53" by (simp add: ulp_scale(1)[of "exponent x"] U_def)
  also have "\<dots> \<le> x / 2 ^ 53" using exponent_bounds[OF assms] by (simp add: divide_right_mono)
  finally show ?thesis .
qed

lemma round_double_rel:
  assumes "0 < x"
  shows "(1 - 1 / 2 ^ 53) * x \<le> round_double x" and "round_double x \<le> (1 + 1 / 2 ^ 53) * x"
proof -
  have a: "(1 - 1 / 2 ^ 53) * x = x - x / 2 ^ 53" "(1 + 1 / 2 ^ 53) * x = x + x / 2 ^ 53"
    by (simp_all add: algebra_simps)
  show "(1 - 1 / 2 ^ 53) * x \<le> round_double x" and "round_double x \<le> (1 + 1 / 2 ^ 53) * x"
    unfolding a using round_double_error[OF assms] by linarith+
qed

lemma round_double_mono:
  assumes "0 < x" and "x \<le> y"
  shows "round_double x \<le> round_double y"
proof -
  have y: "0 < y" using assms by simp
  have le: "exponent x \<le> exponent y" using assms by (rule exponent_mono)
  show ?thesis
  proof (cases "exponent x = exponent y")
    case True
    define U :: real where "U = 2 powi (exponent x - 52)"
    have U: "0 < U" by (simp add: U_def)
    have "x / U \<le> y / U" using assms(2) U by (simp add: divide_right_mono)
    then have "round_even (x / U) \<le> round_even (y / U)" by (rule round_even_mono)
    then have "(of_int (round_even (x / U)) :: real) \<le> of_int (round_even (y / U))" by simp
    then have "of_int (round_even (x / U)) * U \<le> of_int (round_even (y / U)) * U"
      using U by (simp only: mult_le_cancel_right_pos)
    then show ?thesis
      unfolding round_double_pos[OF assms(1)] round_double_pos[OF y] True[symmetric] U_def .
  next
    case False
    then have "exponent x + 1 \<le> exponent y" using le by simp
    then have "(2::real) powi (exponent x + 1) \<le> 2 powi (exponent y)" by (rule pow2_mono)
    then show ?thesis
      using round_double_bounds(2)[OF assms(1)] round_double_bounds(1)[OF y] by linarith
  qed
qed

lemma round_double_idem:
  assumes "0 < x"
  shows "round_double (round_double x) = round_double x"
proof -
  define e where "e = exponent x"
  define U :: real where "U = 2 powi (e - 52)"
  define n where "n = round_even (x / U)"
  define y where "y = round_double x"
  have U: "0 < U" by (simp add: U_def)
  have r: "y = of_int n * U" using round_double_pos[OF assms] by (simp add: n_def U_def e_def y_def)
  have n: "2 ^ 52 \<le> n" "n \<le> 2 ^ 53" using mantissa_bounds[OF assms] by (simp_all add: n_def U_def e_def)
  have y: "0 < y" unfolding y_def using assms by (rule round_double_gt0)
  have lo: "2 powi e \<le> y" unfolding y_def e_def using assms by (rule round_double_bounds(1))
  have "round_double y = y"
  proof (cases "n = 2 ^ 53")
    case True
    have yv: "y = 2 powi (e + 1)" unfolding r True U_def ulp_scale(2)[of e] by simp
    have "y < 2 powi (e + 1 + 1)" unfolding yv by (rule pow2_strict_mono) simp
    with y have ey: "exponent y = e + 1" by (intro exponent_unique) (simp_all add: yv)
    have U2: "(2::real) powi (e + 1 - 52) = 2 * U" using pow2_Suc[of "e - 52"] by (simp add: U_def)
    have q: "y / (2 * U) = of_int (2 ^ 52)" using U by (simp add: r True)
    show ?thesis unfolding round_double_pos[OF y] ey U2 q round_even_of_int
      by (simp add: r True)
  next
    case False
    then have "n + 1 \<le> 2 ^ 53" using n(2) by simp
    then have "(of_int (n + 1) :: real) \<le> of_int (2 ^ 53)" by (simp only: of_int_le_iff)
    then have "of_int n < (2 ^ 53 :: real)" by simp
    then have "of_int n * U < 2 ^ 53 * U" using U by (simp only: mult_less_cancel_right_pos)
    then have "y < 2 powi (e + 1)" unfolding r ulp_scale(2)[of e] U_def .
    with y lo have ey: "exponent y = e" by (intro exponent_unique)
    have q: "y / U = of_int n" using U by (simp add: r)
    show ?thesis unfolding round_double_pos[OF y] ey U_def[symmetric] q round_even_of_int
      by (simp add: r)
  qed
  then show ?thesis by (simp add: y_def)
qed

lemma round_double_1 [simp]: "round_double 1 = 1"
proof -
  have e: "exponent 1 = 0" by (rule exponent_unique) simp_all
  show ?thesis by (simp add: round_double_def e round_even_def)
qed


subsection \<open>Sums and quotients of rounded numbers\<close>

definition is_double :: "real \<Rightarrow> bool" where
  "is_double x \<longleftrightarrow> round_double x = x"

lemma is_double_round: "0 \<le> x \<Longrightarrow> is_double (round_double x)"
  using round_double_idem[of x] by (cases "x = 0") (simp_all add: is_double_def)

lemma round_double_mono0: "0 \<le> x \<Longrightarrow> x \<le> y \<Longrightarrow> round_double x \<le> round_double y"
proof -
  assume x: "0 \<le> x" and le: "x \<le> y"
  show ?thesis
  proof (cases "x = 0")
    case True
    show ?thesis
    proof (cases "y = 0")
      case True
      then show ?thesis using \<open>x = 0\<close> by simp
    next
      case False
      then have "0 < y" using le True by simp
      then have "0 < round_double y" by (rule round_double_gt0)
      then show ?thesis using True by simp
    qed
  next
    case False
    then have "0 < x" using x by simp
    then show ?thesis using le by (rule round_double_mono)
  qed
qed

lemma sum_list_pos_nonneg: "\<forall>x\<in>set xs. 0 < x \<Longrightarrow> 0 \<le> sum_list (xs :: real list)"
  by (induction xs) auto

lemma float_sum_bounds:
  "\<forall>x\<in>set xs. 0 < x \<Longrightarrow>
   (1 - 1 / 2 ^ 53) ^ length xs * sum_list xs \<le> foldl double_add 0 xs
   \<and> foldl double_add 0 xs \<le> (1 + 1 / 2 ^ 53) ^ length xs * sum_list xs"
proof (induction xs rule: rev_induct)
  case Nil
  show ?case by simp
next
  case (snoc x xs)
  define a :: real where "a = 1 - 1 / 2 ^ 53"
  define b :: real where "b = 1 + 1 / 2 ^ 53"
  define k where "k = length xs"
  define S where "S = sum_list xs"
  define t where "t = foldl double_add 0 xs"
  have a: "0 \<le> a" "a \<le> 1" and b: "1 \<le> b" by (simp_all add: a_def b_def)
  have x: "0 < x" using snoc.prems by simp
  have S: "0 \<le> S" unfolding S_def using snoc.prems by (intro sum_list_pos_nonneg) simp
  have IH: "a ^ k * S \<le> t" "t \<le> b ^ k * S"
    using snoc.IH snoc.prems by (simp_all add: a_def b_def k_def S_def t_def)
  have ak: "0 \<le> a ^ k" "a ^ k \<le> 1" using a by (simp_all add: power_le_one)
  have bk: "1 \<le> b ^ k" using b by (rule one_le_power)
  have "0 \<le> a ^ k * S" using ak(1) S by simp
  then have t0: "0 \<le> t" using IH(1) by linarith
  have p: "0 < t + x" using t0 x by linarith
  have r: "foldl double_add 0 (xs @ [x]) = round_double (t + x)"
    by (simp add: t_def double_add_def)
  have "a ^ k * x \<le> 1 * x" using ak(2) x by (intro mult_right_mono) simp_all
  then have "a ^ k * (S + x) \<le> t + x" using IH(1) by (simp add: distrib_left)
  then have "a * (a ^ k * (S + x)) \<le> a * (t + x)" using a(1) by (rule mult_left_mono)
  also have "\<dots> \<le> round_double (t + x)" unfolding a_def using p by (rule round_double_rel(1))
  finally have lo: "a ^ Suc k * (S + x) \<le> round_double (t + x)" by (simp add: mult.assoc)
  have "1 * x \<le> b ^ k * x" using bk x by (intro mult_right_mono) simp_all
  then have "t + x \<le> b ^ k * (S + x)" using IH(2) by (simp add: distrib_left)
  then have "b * (t + x) \<le> b * (b ^ k * (S + x))" using b by (intro mult_left_mono) simp_all
  moreover have "round_double (t + x) \<le> b * (t + x)" unfolding b_def using p by (rule round_double_rel(2))
  ultimately have hi: "round_double (t + x) \<le> b ^ Suc k * (S + x)" by (simp add: mult.assoc)
  show ?case using lo hi unfolding r by (simp add: a_def b_def k_def S_def)
qed

lemma float_sum_ge:
  "\<forall>x\<in>set xs. 0 < x \<and> is_double x \<Longrightarrow>
   is_double (foldl double_add 0 xs) \<and> 0 \<le> foldl double_add 0 xs
   \<and> (\<forall>x\<in>set xs. x \<le> foldl double_add 0 xs)"
proof (induction xs rule: rev_induct)
  case Nil
  show ?case by (simp add: is_double_def)
next
  case (snoc x xs)
  define t where "t = foldl double_add 0 xs"
  have x: "0 < x" "round_double x = x" using snoc.prems by (simp_all add: is_double_def)
  have IH: "round_double t = t" "0 \<le> t" "\<forall>y\<in>set xs. y \<le> t"
    using snoc.IH snoc.prems by (simp_all add: t_def is_double_def)
  have r: "foldl double_add 0 (xs @ [x]) = round_double (t + x)"
    by (simp add: t_def double_add_def)
  have p: "0 < t + x" using IH(2) x(1) by linarith
  have 1: "is_double (round_double (t + x))" using p by (intro is_double_round) simp
  have 2: "0 \<le> round_double (t + x)" using round_double_gt0[OF p] by simp
  have "round_double x \<le> round_double (t + x)" using x(1) IH(2) by (intro round_double_mono) simp_all
  then have 3: "x \<le> round_double (t + x)" by (simp add: x(2))
  have "round_double t \<le> round_double (t + x)" using IH(2) x(1) by (intro round_double_mono0) simp_all
  then have 4: "t \<le> round_double (t + x)" by (simp add: IH(1))
  have 5: "\<forall>y\<in>set xs. y \<le> round_double (t + x)"
  proof
    fix y assume "y \<in> set xs"
    then have "y \<le> t" using IH(3) by blast
    then show "y \<le> round_double (t + x)" using 4 by linarith
  qed
  show ?case unfolding r using 1 2 3 5 by simp
qed

lemma quotient_sum_bounds:
  "0 < t \<Longrightarrow> \<forall>c\<in>set cs. 0 < c \<Longrightarrow>
   (1 - 1 / 2 ^ 53) * (sum_list cs / t) \<le> sum_list (map (\<lambda>c. double_div c t) cs)
   \<and> sum_list (map (\<lambda>c. double_div c t) cs) \<le> (1 + 1 / 2 ^ 53) * (sum_list cs / t)"
proof (induction cs)
  case Nil
  show ?case by simp
next
  case (Cons c cs)
  have q: "0 < c / t" using Cons.prems by simp
  have 1: "(1 - 1 / 2 ^ 53) * (c / t) \<le> double_div c t"
    and 2: "double_div c t \<le> (1 + 1 / 2 ^ 53) * (c / t)"
    unfolding double_div_def using q by (rule round_double_rel)+
  have IH: "(1 - 1 / 2 ^ 53) * (sum_list cs / t) \<le> sum_list (map (\<lambda>c. double_div c t) cs)"
    "sum_list (map (\<lambda>c. double_div c t) cs) \<le> (1 + 1 / 2 ^ 53) * (sum_list cs / t)"
    using Cons.IH Cons.prems by simp_all
  have s: "sum_list (c # cs) / t = c / t + sum_list cs / t" by (simp add: add_divide_distrib)
  show ?case unfolding s distrib_left using 1 2 IH by simp
qed

lemma tolerance:
  fixes m :: nat
  assumes "m \<le> 2 ^ 30"
  shows "(1 - 1 / 10 ^ 6 :: real) \<le> (1 - 1 / 2 ^ 53) ^ Suc m / (1 + 1 / 2 ^ 53) ^ m"
    and "(1 + 1 / 2 ^ 53) ^ Suc m / (1 - 1 / 2 ^ 53) ^ m \<le> (1 + 1 / 10 ^ 6 :: real)"
proof -
  define a :: real where "a = 1 - 1 / 2 ^ 53"
  define b :: real where "b = 1 + 1 / 2 ^ 53"
  define p where "p = a ^ Suc m * a ^ m"
  define d :: real where "d = real (Suc m + m) * (1 / 2 ^ 53)"
  have a: "0 < a" "a \<le> 1" and b: "0 < b" by (simp_all add: a_def b_def)
  have ab: "a * b \<le> 1" by (simp add: a_def b_def algebra_simps)
  have pw: "a ^ k * b ^ k \<le> 1" for k
  proof -
    have "(a * b) ^ k \<le> 1" using ab a(1) b by (intro power_le_one) simp_all
    then show ?thesis by (simp add: power_mult_distrib)
  qed
  have ak: "0 < a ^ k" and bk: "0 < b ^ k" for k using a(1) b by simp_all
  have "real (Suc m + m) \<le> real (2 ^ 31 + 1)" using assms by (intro of_nat_mono) simp
  then have "d \<le> real (2 ^ 31 + 1) * (1 / 2 ^ 53)" unfolding d_def by (intro mult_right_mono) simp_all
  then have d: "d \<le> 1 / 2 ^ 21" by simp
  have d0: "0 \<le> d" by (simp add: d_def)
  have "1 + real (Suc m + m) * (- (1 / 2 ^ 53)) \<le> (1 + - (1 / 2 ^ 53)) ^ (Suc m + m)"
    by (rule Bernoulli_inequality) simp
  then have p: "1 - d \<le> p" by (simp add: p_def d_def a_def power_add)
  have lo: "p \<le> a ^ Suc m / b ^ m"
  proof -
    have "a ^ m * b ^ m \<le> 1" by (rule pw)
    then have "a ^ m \<le> 1 / b ^ m" using bk[of m] by (simp add: pos_le_divide_eq)
    then have "a ^ Suc m * a ^ m \<le> a ^ Suc m * (1 / b ^ m)"
      using ak[of "Suc m"] by (intro mult_left_mono) simp_all
    then show ?thesis by (simp add: p_def)
  qed
  have hi: "b ^ Suc m / a ^ m \<le> 1 / p"
  proof -
    have "a ^ Suc m * b ^ Suc m \<le> 1" by (rule pw)
    then have "b ^ Suc m \<le> 1 / a ^ Suc m" using ak[of "Suc m"] by (simp add: pos_le_divide_eq mult.commute)
    then have "b ^ Suc m / a ^ m \<le> (1 / a ^ Suc m) / a ^ m"
      using ak[of m] by (intro divide_right_mono) simp_all
    then show ?thesis by (simp add: p_def)
  qed
  have p0: "0 < p" using p d by simp
  have "(1 - 1 / 10 ^ 6 :: real) \<le> 1 - d" using d by simp
  then show "(1 - 1 / 10 ^ 6 :: real) \<le> (1 - 1 / 2 ^ 53) ^ Suc m / (1 + 1 / 2 ^ 53) ^ m"
    using lo p unfolding a_def b_def by linarith
  have "1 \<le> (1 + 1 / 10 ^ 6) * (1 - d)" using d by (simp add: algebra_simps)
  also have "\<dots> \<le> (1 + 1 / 10 ^ 6) * p" using p by (intro mult_left_mono) simp_all
  finally have "1 / p \<le> 1 + 1 / 10 ^ 6" using p0 by (simp add: pos_divide_le_eq)
  then show "(1 + 1 / 2 ^ 53) ^ Suc m / (1 - 1 / 2 ^ 53) ^ m \<le> (1 + 1 / 10 ^ 6 :: real)"
    using hi unfolding a_def b_def by linarith
qed


lemma normalized_weights:
  fixes cs :: "real list"
  assumes ne: "cs \<noteq> []" and dbl: "\<forall>c\<in>set cs. 0 < c \<and> is_double c"
    and len: "length cs \<le> 2 ^ 30"
    and t: "t = foldl double_add 0 cs" and ws: "ws = map (\<lambda>c. double_div c t) cs"
  shows "\<forall>w\<in>set ws. 0 \<le> w \<and> w \<le> 1"
    and "\<bar>sum_list ws - 1\<bar> \<le> 1 / 10 ^ 6"
    and "\<bar>foldl double_add 0 ws - 1\<bar> \<le> 1 / 10 ^ 6"
proof -
  define a :: real where "a = 1 - 1 / 2 ^ 53"
  define b :: real where "b = 1 + 1 / 2 ^ 53"
  define m where "m = length cs"
  define S where "S = sum_list cs"
  define W where "W = sum_list ws"
  define F where "F = foldl double_add 0 ws"
  have a: "0 < a" "a \<le> 1" and b: "0 < b" "1 \<le> b" by (simp_all add: a_def b_def)
  have am: "0 < a ^ m" "a ^ m \<le> 1" using a by (simp_all add: power_le_one)
  have bm: "0 < b ^ m" "1 \<le> b ^ m" using b by (simp_all add: one_le_power)
  have pos: "\<forall>c\<in>set cs. 0 < c" using dbl by blast
  obtain c0 cs0 where cs: "cs = c0 # cs0" using ne by (cases cs) auto
  have "0 \<le> sum_list cs0" using pos cs by (intro sum_list_pos_nonneg) simp
  moreover have "0 < c0" using pos cs by simp
  ultimately have S: "0 < S" by (simp add: S_def cs)
  have fb: "a ^ m * S \<le> t" "t \<le> b ^ m * S"
    using float_sum_bounds[OF pos] by (simp_all add: a_def b_def m_def S_def t)
  have "0 < a ^ m * S" using am(1) S by simp
  then have tpos: "0 < t" using fb(1) by linarith
  have ge: "\<forall>c\<in>set cs. c \<le> t" using float_sum_ge[OF dbl] by (simp add: t)
  show w01: "\<forall>w\<in>set ws. 0 \<le> w \<and> w \<le> 1"
  proof
    fix w assume "w \<in> set ws"
    then obtain c where c: "c \<in> set cs" "w = round_double (c / t)"
      by (auto simp: ws double_div_def)
    have q: "0 < c / t" using c(1) pos tpos by simp
    have "c / t \<le> 1" using c(1) ge tpos by simp
    with q have "round_double (c / t) \<le> round_double 1" by (rule round_double_mono)
    then show "0 \<le> w \<and> w \<le> 1" using round_double_gt0[OF q] by (simp add: c(2))
  qed
  have wpos: "\<forall>w\<in>set ws. 0 < w"
  proof
    fix w assume "w \<in> set ws"
    then obtain c where c: "c \<in> set cs" "w = round_double (c / t)"
      by (auto simp: ws double_div_def)
    have "0 < c / t" using c(1) pos tpos by simp
    then show "0 < w" unfolding c(2) by (rule round_double_gt0)
  qed
  have qb: "a * (S / t) \<le> W" "W \<le> b * (S / t)"
    using quotient_sum_bounds[OF tpos pos] by (simp_all add: a_def b_def S_def W_def ws)
  have r1: "S / t \<le> 1 / a ^ m" using fb(1) tpos am(1) by (simp add: field_simps)
  have r2: "1 / b ^ m \<le> S / t" using fb(2) tpos bm(1) by (simp add: field_simps)
  have "a * (1 / b ^ m) \<le> a * (S / t)" using r2 a(1) by (intro mult_left_mono) simp_all
  then have W1: "a / b ^ m \<le> W" using qb(1) by simp
  have "b * (S / t) \<le> b * (1 / a ^ m)" using r1 b(1) by (intro mult_left_mono) simp_all
  then have W2: "W \<le> b / a ^ m" using qb(2) by simp
  have lw: "length ws = m" by (simp add: ws m_def)
  have Fb: "a ^ m * W \<le> F" "F \<le> b ^ m * W"
    using float_sum_bounds[OF wpos] by (simp_all add: a_def b_def lw W_def F_def)
  have "a ^ m * (a / b ^ m) \<le> a ^ m * W" using W1 am(1) by (intro mult_left_mono) simp_all
  then have F1: "a ^ Suc m / b ^ m \<le> F" using Fb(1) by (simp add: mult.commute)
  have "b ^ m * W \<le> b ^ m * (b / a ^ m)" using W2 bm(1) by (intro mult_left_mono) simp_all
  then have F2: "F \<le> b ^ Suc m / a ^ m" using Fb(2) by (simp add: mult.commute)
  have "a * a ^ m \<le> a * 1" using am(2) a(1) by (intro mult_left_mono) simp_all
  then have "a ^ Suc m / b ^ m \<le> a / b ^ m" using bm(1) by (intro divide_right_mono) simp_all
  then have W3: "a ^ Suc m / b ^ m \<le> W" using W1 by linarith
  have "b * 1 \<le> b * b ^ m" using bm(2) b(1) by (intro mult_left_mono) simp_all
  then have "b / a ^ m \<le> b ^ Suc m / a ^ m" using am(1) by (intro divide_right_mono) simp_all
  then have W4: "W \<le> b ^ Suc m / a ^ m" using W2 by linarith
  have tol: "1 - 1 / 10 ^ 6 \<le> a ^ Suc m / b ^ m" "b ^ Suc m / a ^ m \<le> 1 + 1 / 10 ^ 6"
    using tolerance[of m] len unfolding a_def b_def m_def by blast+
  show "\<bar>sum_list ws - 1\<bar> \<le> 1 / 10 ^ 6"
    using W3 W4 tol unfolding W_def[symmetric] by linarith
  show "\<bar>foldl double_add 0 ws - 1\<bar> \<le> 1 / 10 ^ 6"
    using F1 F2 tol unfolding F_def[symmetric] by linarith
qed

subsection \<open>The contributions and their normalisation\<close>

lemma distinct_map_set: "distinct (map_keys m) \<Longrightarrow> distinct (map_keys (map_set k v m))"
  by (simp add: map_keys_map_set)

lemma map_get_in_values: "map_get m k = Some v \<Longrightarrow> v \<in> set (map_values m)"
proof -
  assume "map_get m k = Some v"
  then have "(k, v) \<in> set m" unfolding map_get_def by (rule map_of_SomeD)
  then show ?thesis unfolding map_values_def by force
qed

lemma set_map_set: "set (map_set k v m) \<subseteq> insert (k, v) (set m)"
  by (induction k v m rule: map_set.induct) (auto split: if_splits)

lemma values_map_set: "set (map_values (map_set k v m)) \<subseteq> insert v (set (map_values m))"
  using set_map_set[of k v m] unfolding map_values_def set_map by force

lemma map_set_nonempty: "map_set k v m \<noteq> []"
  by (cases m) (auto split: if_splits)

lemma length_map_set: "length (map_set k v m) \<le> Suc (length m)"
  by (induction k v m rule: map_set.induct) auto

lemma round_double_ge1: "1 \<le> x \<Longrightarrow> 1 \<le> round_double x"
  using round_double_mono[of 1 x] by simp

lemma weight_ge1: "1 \<le> double_add 1 (double_mul (real d) (round_double (1 / 10)))"
proof -
  have "0 < round_double (1 / 10)" by (rule round_double_gt0) simp
  then have "0 \<le> real d * round_double (1 / 10)" by simp
  then have "round_double 0 \<le> round_double (real d * round_double (1 / 10))"
    by (intro round_double_mono0) simp_all
  then have "1 \<le> 1 + double_mul (real d) (round_double (1 / 10))" by (simp add: double_mul_def)
  then show ?thesis unfolding double_add_def by (rule round_double_ge1)
qed

lemma accumulate_props:
  "distinct (map_keys ac) \<Longrightarrow> \<forall>v\<in>set (map_values ac). 1 \<le> v \<and> is_double v \<Longrightarrow>
   distinct (map_keys (accumulate g ns ac))
   \<and> (\<forall>v\<in>set (map_values (accumulate g ns ac)). 1 \<le> v \<and> is_double v)
   \<and> (ns \<noteq> [] \<or> ac \<noteq> [] \<longrightarrow> accumulate g ns ac \<noteq> [])
   \<and> length (accumulate g ns ac) \<le> length ac + length ns"
proof (induction g ns ac rule: accumulate.induct)
  case (1 g ac)
  then show ?case by simp
next
  case (2 g nodeId node rest ac)
  define k where "k = agentKey_of node"
  define cur where "cur = (case map_get ac k of None \<Rightarrow> 0 | Some c \<Rightarrow> c)"
  define w where
    "w = double_add 1 (double_mul (real (countDescendants g nodeId)) (round_double (1 / 10)))"
  let ?v = "double_add cur w"
  have s: "accumulate g ((nodeId, node) # rest) ac = accumulate g rest (map_set k ?v ac)"
    by (simp add: k_def cur_def w_def Let_def)
  have c0: "0 \<le> cur"
  proof (cases "map_get ac k")
    case None
    then show ?thesis by (simp add: cur_def)
  next
    case (Some c)
    then have "1 \<le> c" using "2.prems"(2) map_get_in_values[OF Some] by blast
    then show ?thesis using Some by (simp add: cur_def)
  qed
  have w1: "1 \<le> w" unfolding w_def by (rule weight_ge1)
  have cw: "1 \<le> cur + w" using c0 w1 by linarith
  have v1: "1 \<le> ?v" unfolding double_add_def using cw by (rule round_double_ge1)
  have vd: "is_double ?v" unfolding double_add_def using cw by (intro is_double_round) simp
  have d: "distinct (map_keys (map_set k ?v ac))"
    using "2.prems"(1) by (rule distinct_map_set)
  have v: "\<forall>x\<in>set (map_values (map_set k ?v ac)). 1 \<le> x \<and> is_double x"
    using values_map_set[of k ?v ac] "2.prems"(2) v1 vd by auto
  have "distinct (map_keys (accumulate g rest (map_set k ?v ac)))
      \<and> (\<forall>x\<in>set (map_values (accumulate g rest (map_set k ?v ac))). 1 \<le> x \<and> is_double x)
      \<and> (rest \<noteq> [] \<or> map_set k ?v ac \<noteq> [] \<longrightarrow> accumulate g rest (map_set k ?v ac) \<noteq> [])
      \<and> length (accumulate g rest (map_set k ?v ac)) \<le> length (map_set k ?v ac) + length rest"
    using "2.IH"[OF k_def cur_def refl w_def d v] .
  then show ?case unfolding s
    using map_set_nonempty[of k ?v ac] length_map_set[of k ?v ac] by simp
qed

lemma normalize_eq:
  "distinct (map_keys ac) \<Longrightarrow> set (map_keys ac) \<inter> set (map_keys ws) = {} \<Longrightarrow>
   normalize t ac ws = ws @ map (\<lambda>(agent, contribution). (agent, double_div contribution t)) ac"
proof (induction t ac ws rule: normalize.induct)
  case (1 t ws)
  then show ?case by simp
next
  case (2 t agent contribution rest ws)
  let ?w = "double_div contribution t"
  have n: "agent \<notin> set (map_keys ws)" using "2.prems"(2) by (simp add: map_keys_def)
  have s: "map_set agent ?w ws = ws @ [(agent, ?w)]"
    using n by (induction ws) (auto simp: map_keys_def)
  have d: "distinct (map_keys rest)" using "2.prems"(1) by (simp add: map_keys_def)
  have i: "set (map_keys rest) \<inter> set (map_keys (ws @ [(agent, ?w)])) = {}"
    using "2.prems" by (auto simp: map_keys_def)
  show ?case using "2.IH"[unfolded s, OF d i] by (simp add: s)
qed

lemma values_normalized:
  "map_values (map (\<lambda>(agent, contribution). (agent, double_div contribution t)) ac)
     = map (\<lambda>c. double_div c t) (map_values ac)"
  by (simp add: map_values_def comp_def split_def)

lemma weights_eq:
  "map_values (computeContributionWeights g)
     = map (\<lambda>c. double_div c (foldl double_add 0 (map_values (accumulate g (nodes g) []))))
         (map_values (accumulate g (nodes g) []))"
proof -
  have d: "distinct (map_keys (accumulate g (nodes g) []))"
    using accumulate_props[of "[]" g "nodes g"] by (simp add: map_keys_def map_values_def)
  show ?thesis
    using normalize_eq[OF d, of "[]"]
    by (simp add: computeContributionWeights_def Let_def values_normalized map_keys_def)
qed

subsection \<open>The numbers stay in the exponent range\<close>

text \<open>
  \<open>round_double\<close> has no bound on the exponent. For a store of at most \<open>2 ^ 30\<close> nodes
  with descendant counts below \<open>2 ^ 53\<close> none is needed: every node's weight is at
  most \<open>2 ^ 53\<close>, every contribution and the total lie between 1 and \<open>2 ^ 115\<close>, and
  every weight that is returned is at least \<open>2 ^ - 116\<close>, far inside the range of
  binary64 (\<open>contribution_bound j\<close> bounds the contributions after \<open>j\<close> nodes).
\<close>

definition contribution_bound :: "nat \<Rightarrow> real" where
  "contribution_bound j = (1 + 1 / 2 ^ 53) ^ j * (real j * 2 ^ 53)"

lemma round_double_le_twice: "0 \<le> x \<Longrightarrow> round_double x \<le> 2 * x"
proof (cases "x = 0")
  case True
  then show ?thesis by simp
next
  case False
  assume "0 \<le> x"
  then have x: "0 < x" using False by simp
  have "(1 + 1 / 2 ^ 53) * x \<le> 2 * x" using x by (intro mult_right_mono) simp_all
  then show ?thesis using round_double_rel(2)[OF x] by linarith
qed

lemma weight_le:
  assumes "d < 2 ^ 53"
  shows "double_add 1 (double_mul (real d) (round_double (1 / 10))) \<le> 2 ^ 53"
proof -
  have t: "round_double (1 / 10) = 3602879701896397 / 36028797018963968" by code_simp
  have "real d < real (2 ^ 53)" using assms by (simp only: of_nat_less_iff)
  then have d: "real d \<le> 2 ^ 53" by simp
  have "real d * round_double (1 / 10) \<le> 2 ^ 53 * round_double (1 / 10)"
    using d by (intro mult_right_mono) (simp_all add: t)
  then have p: "real d * round_double (1 / 10) \<le> 2 ^ 50" by (simp add: t)
  have p0: "0 \<le> real d * round_double (1 / 10)" by (simp add: t)
  have "double_mul (real d) (round_double (1 / 10)) \<le> 2 * (real d * round_double (1 / 10))"
    unfolding double_mul_def using p0 by (rule round_double_le_twice)
  then have m: "double_mul (real d) (round_double (1 / 10)) \<le> 2 ^ 51" using p by simp
  have "0 < real d * round_double (1 / 10) \<or> real d * round_double (1 / 10) = 0"
    using p0 by linarith
  then have m0: "0 \<le> double_mul (real d) (round_double (1 / 10))"
    unfolding double_mul_def using round_double_gt0[of "real d * round_double (1 / 10)"] by auto
  have "double_add 1 (double_mul (real d) (round_double (1 / 10)))
      \<le> 2 * (1 + double_mul (real d) (round_double (1 / 10)))"
    unfolding double_add_def using m0 by (intro round_double_le_twice) simp
  then show ?thesis using m by simp
qed

lemma contribution_bound_step:
  "contribution_bound j \<le> contribution_bound (Suc j)"
  "(1 + 1 / 2 ^ 53) * (contribution_bound j + 2 ^ 53) \<le> contribution_bound (Suc j)"
proof -
  define b :: real where "b = 1 + 1 / 2 ^ 53"
  have b: "1 \<le> b" by (simp add: b_def)
  have bj: "1 \<le> b ^ j" using b by (rule one_le_power)
  have "b ^ j * 1 \<le> b ^ j * b" using b bj by (intro mult_left_mono) simp_all
  then have bs: "b ^ j \<le> b ^ Suc j" by (simp add: mult.commute)
  have "b ^ j * (real j * 2 ^ 53) \<le> b ^ Suc j * (real (Suc j) * 2 ^ 53)"
    using bs bj by (intro mult_mono) simp_all
  then show "contribution_bound j \<le> contribution_bound (Suc j)"
    by (simp only: contribution_bound_def b_def)
  have "1 * 2 ^ 53 \<le> b ^ j * 2 ^ 53" using bj by (intro mult_right_mono) simp_all
  then have "b ^ j * (real j * 2 ^ 53) + 2 ^ 53 \<le> b ^ j * (real (Suc j) * 2 ^ 53)"
    by (simp add: algebra_simps)
  then have "b * (b ^ j * (real j * 2 ^ 53) + 2 ^ 53) \<le> b * (b ^ j * (real (Suc j) * 2 ^ 53))"
    using b by (intro mult_left_mono) simp_all
  then have "b * (b ^ j * (real j * 2 ^ 53) + 2 ^ 53) \<le> b ^ Suc j * (real (Suc j) * 2 ^ 53)"
    by (simp only: power_Suc mult.assoc)
  then show "(1 + 1 / 2 ^ 53) * (contribution_bound j + 2 ^ 53) \<le> contribution_bound (Suc j)"
    by (simp only: contribution_bound_def b_def)
qed

lemma accumulate_le:
  "\<forall>v\<in>set (map_values ac). 0 \<le> v \<and> v \<le> contribution_bound j \<Longrightarrow>
   \<forall>(nodeId, node)\<in>set ns. countDescendants g nodeId < 2 ^ 53 \<Longrightarrow>
   \<forall>v\<in>set (map_values (accumulate g ns ac)). 0 \<le> v \<and> v \<le> contribution_bound (j + length ns)"
proof (induction g ns ac arbitrary: j rule: accumulate.induct)
  case (1 g ac)
  then show ?case by simp
next
  case (2 g nodeId node rest ac)
  define k where "k = agentKey_of node"
  define cur where "cur = (case map_get ac k of None \<Rightarrow> 0 | Some c \<Rightarrow> c)"
  define w where
    "w = double_add 1 (double_mul (real (countDescendants g nodeId)) (round_double (1 / 10)))"
  let ?v = "double_add cur w"
  have s: "accumulate g ((nodeId, node) # rest) ac = accumulate g rest (map_set k ?v ac)"
    by (simp add: k_def cur_def w_def Let_def)
  have c: "0 \<le> cur \<and> cur \<le> contribution_bound j"
  proof (cases "map_get ac k")
    case None
    then show ?thesis by (simp add: cur_def contribution_bound_def)
  next
    case (Some c)
    then show ?thesis using "2.prems"(1) map_get_in_values[OF Some] by (simp add: cur_def)
  qed
  have w1: "1 \<le> w" unfolding w_def by (rule weight_ge1)
  have w2: "w \<le> 2 ^ 53" unfolding w_def using "2.prems"(2) by (intro weight_le) simp
  have cw: "0 < cur + w" using c w1 by linarith
  have "?v \<le> (1 + 1 / 2 ^ 53) * (cur + w)"
    unfolding double_add_def using cw by (rule round_double_rel(2))
  also have "\<dots> \<le> (1 + 1 / 2 ^ 53) * (contribution_bound j + 2 ^ 53)"
    using c w2 by (intro mult_left_mono) simp_all
  also have "\<dots> \<le> contribution_bound (Suc j)" by (rule contribution_bound_step(2))
  finally have v2: "?v \<le> contribution_bound (Suc j)" .
  have v0: "0 \<le> ?v" unfolding double_add_def using round_double_gt0[OF cw] by simp
  have v: "\<forall>x\<in>set (map_values (map_set k ?v ac)). 0 \<le> x \<and> x \<le> contribution_bound (Suc j)"
  proof
    fix x assume "x \<in> set (map_values (map_set k ?v ac))"
    then have "x = ?v \<or> x \<in> set (map_values ac)" using values_map_set[of k ?v ac] by auto
    then show "0 \<le> x \<and> x \<le> contribution_bound (Suc j)"
    proof
      assume "x = ?v"
      then show ?thesis using v0 v2 by simp
    next
      assume "x \<in> set (map_values ac)"
      then have "0 \<le> x \<and> x \<le> contribution_bound j" using "2.prems"(1) by blast
      then show ?thesis using contribution_bound_step(1)[of j] by linarith
    qed
  qed
  have r: "\<forall>(nodeId, node)\<in>set rest. countDescendants g nodeId < 2 ^ 53"
    using "2.prems"(2) by simp
  have "\<forall>x\<in>set (map_values (accumulate g rest (map_set k ?v ac))).
      0 \<le> x \<and> x \<le> contribution_bound (Suc j + length rest)"
    using "2.IH"[OF k_def cur_def refl w_def v r] .
  then show ?case unfolding s by simp
qed

lemma power_roundoff_le2:
  fixes m :: nat
  assumes "m \<le> 2 ^ 30"
  shows "(1 + 1 / 2 ^ 53 :: real) ^ m \<le> 2"
proof -
  define a :: real where "a = 1 - 1 / 2 ^ 53"
  define b :: real where "b = 1 + 1 / 2 ^ 53"
  have a: "0 < a" "a \<le> 1" and b: "1 \<le> b" by (simp_all add: a_def b_def)
  have am: "0 < a ^ m" "a ^ m \<le> 1" using a by (simp_all add: power_le_one)
  have bm: "1 \<le> b ^ m" using b by (rule one_le_power)
  have "b ^ m * 1 \<le> b ^ m * b" using b bm by (intro mult_left_mono) simp_all
  then have 1: "b ^ m \<le> b ^ Suc m" by (simp add: mult.commute)
  have "b ^ Suc m * a ^ m \<le> b ^ Suc m * 1" using am(2) b by (intro mult_left_mono) simp_all
  then have 2: "b ^ Suc m \<le> b ^ Suc m / a ^ m" using am(1) by (simp add: pos_le_divide_eq)
  have "b ^ Suc m / a ^ m \<le> 1 + 1 / 10 ^ 6"
    using tolerance(2)[OF assms] by (simp only: a_def b_def)
  then have "b ^ m \<le> 1 + 1 / 10 ^ 6" using 1 2 by linarith
  then show ?thesis unfolding b_def by simp
qed

lemma contribution_bound_le:
  assumes "j \<le> 2 ^ 30"
  shows "contribution_bound j \<le> 2 ^ 84"
proof -
  have "real j \<le> real (2 ^ 30)" using assms by (simp only: of_nat_le_iff)
  then have j: "real j * 2 ^ 53 \<le> 2 ^ 83" by simp
  have "(1 + 1 / 2 ^ 53) ^ j * (real j * 2 ^ 53) \<le> 2 * 2 ^ 83"
    using power_roundoff_le2[OF assms] j by (intro mult_mono) simp_all
  then show ?thesis by (simp add: contribution_bound_def)
qed

lemma sum_list_le_length:
  "\<forall>x\<in>set xs. x \<le> (B::real) \<Longrightarrow> sum_list xs \<le> real (length xs) * B"
  by (induction xs) (auto simp: algebra_simps)

lemma numbers_in_range:
  assumes ne: "nodes g \<noteq> []" and len: "length (nodes g) \<le> 2 ^ 30"
    and cnt: "\<forall>nodeId\<in>set (map_keys (nodes g)). countDescendants g nodeId < 2 ^ 53"
    and cs: "cs = map_values (accumulate g (nodes g) [])"
    and t: "t = foldl double_add 0 cs"
  shows "\<forall>c\<in>set cs. 1 \<le> c \<and> c \<le> 2 ^ 84"
    and "1 \<le> t \<and> t \<le> 2 ^ 115"
    and "\<forall>w\<in>set (map_values (computeContributionWeights g)). 1 / 2 ^ 116 \<le> w"
proof -
  have p: "\<forall>c\<in>set cs. 1 \<le> c \<and> is_double c" "cs \<noteq> []" "length cs \<le> length (nodes g)"
    using accumulate_props[of "[]" g "nodes g"] ne
    by (simp_all add: cs map_keys_def map_values_def)
  have "\<forall>v\<in>set (map_values (accumulate g (nodes g) [])).
      0 \<le> v \<and> v \<le> contribution_bound (0 + length (nodes g))"
    using cnt by (intro accumulate_le) (auto simp: map_values_def map_keys_def)
  then have u: "\<forall>c\<in>set cs. c \<le> 2 ^ 84"
    using contribution_bound_le[OF len] by (auto simp: cs)
  show c: "\<forall>c\<in>set cs. 1 \<le> c \<and> c \<le> 2 ^ 84" using p(1) u by blast
  have pos: "\<forall>c\<in>set cs. 0 < c"
  proof
    fix c assume "c \<in> set cs"
    then have "1 \<le> c" using p(1) by blast
    then show "0 < c" by linarith
  qed
  have dbl: "\<forall>c\<in>set cs. 0 < c \<and> is_double c" using p(1) pos by blast
  obtain c0 cs0 where c0: "cs = c0 # cs0" using p(2) by (cases cs) auto
  have "c0 \<le> t" using float_sum_ge[OF dbl] by (simp add: t c0)
  moreover have "1 \<le> c0" using p(1) c0 by simp
  ultimately have t1: "1 \<le> t" by linarith
  have m: "length cs \<le> 2 ^ 30" using p(3) len by linarith
  have "real (length cs) \<le> real (2 ^ 30)" using m by (simp only: of_nat_le_iff)
  then have "real (length cs) * 2 ^ 84 \<le> 2 ^ 30 * 2 ^ 84" by (intro mult_right_mono) simp_all
  then have S: "sum_list cs \<le> 2 ^ 114" using sum_list_le_length[OF u] by simp
  have S0: "0 \<le> sum_list cs" using pos by (rule sum_list_pos_nonneg)
  have "t \<le> (1 + 1 / 2 ^ 53) ^ length cs * sum_list cs"
    using float_sum_bounds[OF pos] by (simp add: t)
  also have "\<dots> \<le> 2 * 2 ^ 114"
    using power_roundoff_le2[OF m] S S0 by (intro mult_mono) simp_all
  finally have t2: "t \<le> 2 ^ 115" by simp
  show "1 \<le> t \<and> t \<le> 2 ^ 115" using t1 t2 by simp
  show "\<forall>w\<in>set (map_values (computeContributionWeights g)). 1 / 2 ^ 116 \<le> w"
  proof
    fix w assume "w \<in> set (map_values (computeContributionWeights g))"
    then obtain c where w: "c \<in> set cs" "w = round_double (c / t)"
      unfolding weights_eq by (auto simp: cs t double_div_def)
    have c1: "1 \<le> c" using w(1) p(1) by blast
    have tp: "0 < t" using t1 by linarith
    have "1 / 2 ^ 115 \<le> 1 / t" using t2 tp by (intro divide_left_mono) simp_all
    also have "\<dots> \<le> c / t" using c1 tp by (intro divide_right_mono) simp_all
    finally have q: "1 / 2 ^ 115 \<le> c / t" .
    then have q0: "0 < c / t" using c1 tp by simp
    have "1 / 2 ^ 116 \<le> (1 - 1 / 2 ^ 53) * (1 / 2 ^ 115 :: real)" by simp
    also have "\<dots> \<le> (1 - 1 / 2 ^ 53) * (c / t)" using q by (intro mult_left_mono) simp_all
    also have "\<dots> \<le> round_double (c / t)" using q0 by (rule round_double_rel(1))
    finally show "1 / 2 ^ 116 \<le> w" by (simp only: w(2))
  qed
qed

subsection \<open>The weights sum to one within the tolerance\<close>

text \<open>
  \<open>long_chain_graph\<close> is \<open>chain_graph\<close> with a fourth node below \<open>leaf\<close>: a chain of
  four nodes, the second one by agent \<open>B\<close> and the others by agent \<open>A\<close>.
\<close>

definition long_chain_graph :: DKG where
  "long_chain_graph = addNode chain_graph (createNode ''tail'' [''leaf''] ''A'' 4000) None"

text \<open>
  Claim C2, in binary64 arithmetic. Take a store of at most \<open>2 ^ 30\<close> nodes whose
  descendant counts are below \<open>2 ^ 53\<close>, so that the counts are exact numbers. If it
  has a node, the weights that \<open>computeContributionWeights\<close> returns need not sum to
  exactly 1, but their sum is within \<open>1e-6\<close> of 1: the exact sum of the returned
  numbers and also the sum that \<open>reduce((a, b) => a + b, 0)\<close> computes, which rounds
  at every addition. Every weight lies between 0 and 1. For the store without nodes
  the result is the empty mapping, and no division takes place. For \<open>m\<close> agents the
  sum is at least \<open>1 - (2 * m + 1) / 2 ^ 53\<close> and at most the inverse of that, an
  error that grows with the size of the store: hence the bound on the number of
  nodes.
\<close>

theorem contribution_weights_tolerance:
  assumes "length (nodes g) \<le> 2 ^ 30"
    and "\<forall>nodeId\<in>set (map_keys (nodes g)). countDescendants g nodeId < 2 ^ 53"
  shows "(nodes g \<noteq> [] \<longrightarrow>
      computeContributionWeights g \<noteq> []
      \<and> \<bar>sum_list (map_values (computeContributionWeights g)) - 1\<bar> \<le> 1 / 10 ^ 6
      \<and> \<bar>foldl (\<lambda>a b. double_add a b) 0 (map_values (computeContributionWeights g)) - 1\<bar>
          \<le> 1 / 10 ^ 6
      \<and> (\<forall>w\<in>set (map_values (computeContributionWeights g)). 0 \<le> w \<and> w \<le> 1))
   \<and> (nodes g = [] \<longrightarrow> computeContributionWeights g = [])"
proof -
  define cs where "cs = map_values (accumulate g (nodes g) [])"
  define t where "t = foldl double_add 0 cs"
  define ws where "ws = map_values (computeContributionWeights g)"
  have p: "\<forall>c\<in>set cs. 1 \<le> c \<and> is_double c" "nodes g \<noteq> [] \<longrightarrow> cs \<noteq> []"
    "length cs \<le> length (nodes g)"
    using accumulate_props[of "[]" g "nodes g"]
    by (simp_all add: cs_def map_keys_def map_values_def)
  have w: "ws = map (\<lambda>c. double_div c t) cs" unfolding ws_def t_def cs_def by (rule weights_eq)
  have e: "nodes g = [] \<longrightarrow> computeContributionWeights g = []"
    by (simp add: computeContributionWeights_def)
  have m: "nodes g \<noteq> [] \<longrightarrow>
      computeContributionWeights g \<noteq> []
      \<and> \<bar>sum_list ws - 1\<bar> \<le> 1 / 10 ^ 6 \<and> \<bar>foldl double_add 0 ws - 1\<bar> \<le> 1 / 10 ^ 6
      \<and> (\<forall>w\<in>set ws. 0 \<le> w \<and> w \<le> 1)"
  proof
    assume "nodes g \<noteq> []"
    then have ne: "cs \<noteq> []" using p(2) by simp
    have dbl: "\<forall>c\<in>set cs. 0 < c \<and> is_double c"
    proof
      fix c assume "c \<in> set cs"
      then have "1 \<le> c \<and> is_double c" using p(1) by blast
      then show "0 < c \<and> is_double c" by simp
    qed
    have len: "length cs \<le> 2 ^ 30" using p(3) assms(1) by linarith
    have "ws \<noteq> []" using ne by (simp add: w)
    then have n: "computeContributionWeights g \<noteq> []" by (auto simp: ws_def map_values_def)
    show "computeContributionWeights g \<noteq> []
      \<and> \<bar>sum_list ws - 1\<bar> \<le> 1 / 10 ^ 6 \<and> \<bar>foldl double_add 0 ws - 1\<bar> \<le> 1 / 10 ^ 6
      \<and> (\<forall>w\<in>set ws. 0 \<le> w \<and> w \<le> 1)"
      using n normalized_weights[OF ne dbl len t_def w] by simp
  qed
  show ?thesis using e m unfolding ws_def by simp
qed

theorem contribution_weights_tolerance_witness:
  "length (nodes chain_graph) = 3
   \<and> map (countDescendants chain_graph) (map_keys (nodes chain_graph)) = [2, 1, 0]
   \<and> computeContributionWeights chain_graph
       = [(''A'', 6004799503160661 / 9007199254740992),
          (''B'', 6004799503160661 / 18014398509481984)]
   \<and> \<bar>sum_list (map_values (computeContributionWeights chain_graph)) - 1\<bar> \<le> 1 / 10 ^ 6
   \<and> length (nodes long_chain_graph) = 4
   \<and> map (countDescendants long_chain_graph) (map_keys (nodes long_chain_graph)) = [3, 2, 1, 0]
   \<and> computeContributionWeights long_chain_graph
       = [(''A'', 3328747550665149 / 4503599627370496),
          (''B'', 2349704153410693 / 9007199254740992)]
   \<and> foldl (\<lambda>a b. double_add a b) 0 (map_values (computeContributionWeights long_chain_graph))
       = 9007199254740991 / 9007199254740992
   \<and> \<bar>foldl (\<lambda>a b. double_add a b) 0 (map_values (computeContributionWeights long_chain_graph)) - 1\<bar>
       \<le> 1 / 10 ^ 6
   \<and> computeContributionWeights new_DKG = []"
proof -
  have l3: "length (nodes chain_graph) = 3" by code_simp
  have d3: "map (countDescendants chain_graph) (map_keys (nodes chain_graph)) = [2, 1, 0]"
    by code_simp
  have c3: "\<forall>nodeId\<in>set (map_keys (nodes chain_graph)).
      countDescendants chain_graph nodeId < 2 ^ 53"
  proof
    fix i assume "i \<in> set (map_keys (nodes chain_graph))"
    then have "countDescendants chain_graph i
        \<in> set (map (countDescendants chain_graph) (map_keys (nodes chain_graph)))" by simp
    then show "countDescendants chain_graph i < 2 ^ 53" unfolding d3 by auto
  qed
  have n3: "nodes chain_graph \<noteq> []" using l3 by auto
  have w3: "computeContributionWeights chain_graph
       = [(''A'', 6004799503160661 / 9007199254740992),
          (''B'', 6004799503160661 / 18014398509481984)]" by code_simp
  have l4: "length (nodes long_chain_graph) = 4" by code_simp
  have d4: "map (countDescendants long_chain_graph) (map_keys (nodes long_chain_graph))
      = [3, 2, 1, 0]" by code_simp
  have c4: "\<forall>nodeId\<in>set (map_keys (nodes long_chain_graph)).
      countDescendants long_chain_graph nodeId < 2 ^ 53"
  proof
    fix i assume "i \<in> set (map_keys (nodes long_chain_graph))"
    then have "countDescendants long_chain_graph i
        \<in> set (map (countDescendants long_chain_graph) (map_keys (nodes long_chain_graph)))"
      by simp
    then show "countDescendants long_chain_graph i < 2 ^ 53" unfolding d4 by auto
  qed
  have n4: "nodes long_chain_graph \<noteq> []" using l4 by auto
  have w4: "computeContributionWeights long_chain_graph
       = [(''A'', 3328747550665149 / 4503599627370496),
          (''B'', 2349704153410693 / 9007199254740992)]" by code_simp
  have f4: "foldl (\<lambda>a b. double_add a b) 0 (map_values (computeContributionWeights long_chain_graph))
       = 9007199254740991 / 9007199254740992"
    unfolding w4 by code_simp
  have n0: "nodes new_DKG = []" by (simp add: new_DKG_def)
  have 3: "\<bar>sum_list (map_values (computeContributionWeights chain_graph)) - 1\<bar> \<le> 1 / 10 ^ 6"
    using contribution_weights_tolerance[of chain_graph] l3 c3 n3 by simp
  have 4: "\<bar>foldl (\<lambda>a b. double_add a b) 0 (map_values (computeContributionWeights long_chain_graph)) - 1\<bar>
       \<le> 1 / 10 ^ 6"
    using contribution_weights_tolerance[of long_chain_graph] l4 c4 n4 by simp
  have 0: "computeContributionWeights new_DKG = []"
    using contribution_weights_tolerance[of new_DKG] n0 by (simp add: map_keys_def)
  show ?thesis using l3 d3 w3 3 l4 d4 w4 f4 4 0 by blast
qed

section \<open>The causal chain\<close>

text \<open>
  A forward path is a non-empty list of ids in which every id but the first is a child
  (\<open>getChildren\<close>) of the one before it; a single id is a path from itself to itself.
  \<open>children_stored\<close> says that every id in a child list is a key of the store, as it is
  in every store that \<open>addNode\<close> has built.
\<close>

fun forward_path :: "DKG \<Rightarrow> string list \<Rightarrow> bool" where
  "forward_path g [] = False"
| "forward_path g [x] = True"
| "forward_path g (x # y # zs) = (y \<in> set (getChildren g x) \<and> forward_path g (y # zs))"

definition path_from_to :: "DKG \<Rightarrow> string \<Rightarrow> string \<Rightarrow> string list \<Rightarrow> bool" where
  "path_from_to g a b xs = (forward_path g xs \<and> hd xs = a \<and> last xs = b)"

definition children_stored :: "DKG \<Rightarrow> bool" where
  "children_stored g = (\<forall>(p, cs)\<in>set (edges g). set cs \<subseteq> set (map_keys (nodes g)))"


lemma forward_path_nonempty: "forward_path g xs \<Longrightarrow> xs \<noteq> []"
  by (cases xs) auto

lemma forward_path_snoc:
  "forward_path g p \<Longrightarrow> c \<in> set (getChildren g (last p)) \<Longrightarrow> forward_path g (p @ [c])"
  by (induction g p rule: forward_path.induct) auto

lemma forward_path_step:
  "forward_path g q \<Longrightarrow> Suc k < length q \<Longrightarrow> q ! Suc k \<in> set (getChildren g (q ! k))"
proof (induction g q arbitrary: k rule: forward_path.induct)
  case (3 g x y zs)
  then show ?case by (cases k) auto
qed auto


text \<open>
  The invariant of the search. Every queue entry records a forward path from the start
  to its id; the recorded paths grow along the queue and differ in length by one at
  most; and every forward path \<open>q\<close> from the start to the target is met by a queue
  entry at a position \<open>i\<close> whose recorded path is no longer than \<open>q\<close> up to \<open>i\<close>, with
  no visited id on \<open>q\<close> from \<open>i\<close> on.
\<close>

definition paths_ok :: "DKG \<Rightarrow> string \<Rightarrow> (string \<times> string list) list \<Rightarrow> bool" where
  "paths_ok g a queue = (\<forall>x\<in>set queue. path_from_to g a (fst x) (snd x))"

definition lens_ok :: "(string \<times> string list) list \<Rightarrow> bool" where
  "lens_ok queue =
     (sorted (map (\<lambda>x. length (snd x)) queue)
      \<and> (\<forall>x\<in>set queue. \<forall>y\<in>set queue. length (snd y) \<le> length (snd x) + 1))"

definition frontier :: "DKG \<Rightarrow> string \<Rightarrow> string \<Rightarrow> (string \<times> string list) list \<Rightarrow> string set \<Rightarrow> bool" where
  "frontier g a b queue V =
     (\<forall>q. path_from_to g a b q \<longrightarrow>
        (\<exists>x\<in>set queue. \<exists>i<length q. q ! i = fst x \<and> length (snd x) \<le> i + 1
           \<and> (\<forall>j. i \<le> j \<and> j < length q \<longrightarrow> q ! j \<notin> V)))"

definition queue_inv :: "DKG \<Rightarrow> string \<Rightarrow> string \<Rightarrow> (string \<times> string list) list \<Rightarrow> string set \<Rightarrow> bool" where
  "queue_inv g a b queue V = (paths_ok g a queue \<and> lens_ok queue \<and> frontier g a b queue V)"


lemma queue_inv_init: "queue_inv g a b [(a, [a])] {}"
proof -
  have "frontier g a b [(a, [a])] {}"
    unfolding frontier_def
  proof (intro allI impI)
    fix q assume "path_from_to g a b q"
    then have "q \<noteq> []" "q ! 0 = a"
      by (auto simp: path_from_to_def forward_path_nonempty hd_conv_nth)
    then show "\<exists>x\<in>set [(a, [a])]. \<exists>i<length q. q ! i = fst x \<and> length (snd x) \<le> i + 1
           \<and> (\<forall>j. i \<le> j \<and> j < length q \<longrightarrow> q ! j \<notin> {})"
      by (intro bexI[of _ "(a, [a])"] exI[of _ 0]) auto
  qed
  then show ?thesis
    by (simp add: queue_inv_def paths_ok_def lens_ok_def path_from_to_def)
qed

lemma queue_inv_empty: "queue_inv g a b [] V \<Longrightarrow> \<not> path_from_to g a b q"
  by (auto simp: queue_inv_def frontier_def)

lemma queue_inv_found:
  assumes "queue_inv g a b ((b, p) # rest) V"
  shows "path_from_to g a b p \<and> (\<forall>q. path_from_to g a b q \<longrightarrow> length p \<le> length q)"
proof
  show "path_from_to g a b p" using assms by (simp add: queue_inv_def paths_ok_def)
  show "\<forall>q. path_from_to g a b q \<longrightarrow> length p \<le> length q"
  proof (intro allI impI)
    fix q assume "path_from_to g a b q"
    then obtain x i where x: "x \<in> set ((b, p) # rest)" "i < length q" "length (snd x) \<le> i + 1"
      using assms unfolding queue_inv_def frontier_def by blast
    have "length p \<le> length (snd x)"
      using assms x(1) by (auto simp: queue_inv_def lens_ok_def)
    then show "length p \<le> length q" using x(2,3) by simp
  qed
qed

lemma queue_inv_skip:
  assumes "queue_inv g a b ((n, p) # rest) V" and "n \<in> V"
  shows "queue_inv g a b rest V"
proof -
  have 1: "paths_ok g a rest" using assms(1) by (simp add: queue_inv_def paths_ok_def)
  have 2: "lens_ok rest" using assms(1) by (simp add: queue_inv_def lens_ok_def)
  have 3: "frontier g a b rest V"
    unfolding frontier_def
  proof (intro allI impI)
    fix q assume "path_from_to g a b q"
    then obtain x i where x: "x \<in> set ((n, p) # rest)" "i < length q" "q ! i = fst x"
      "length (snd x) \<le> i + 1" "\<forall>j. i \<le> j \<and> j < length q \<longrightarrow> q ! j \<notin> V"
      using assms(1) unfolding queue_inv_def frontier_def by blast
    have "q ! i \<notin> V" using x(2,5) by simp
    then have "x \<noteq> (n, p)" using x(3) assms(2) by auto
    then have "x \<in> set rest" using x(1) by simp
    then show "\<exists>x\<in>set rest. \<exists>i<length q. q ! i = fst x \<and> length (snd x) \<le> i + 1
           \<and> (\<forall>j. i \<le> j \<and> j < length q \<longrightarrow> q ! j \<notin> V)"
      using x(2,3,4,5) by blast
  qed
  show ?thesis using 1 2 3 by (simp add: queue_inv_def)
qed

lemma queue_inv_expand:
  assumes inv: "queue_inv g a b ((n, p) # rest) V" and nV: "n \<notin> V" and nb: "n \<noteq> b"
  defines "new \<equiv> map (\<lambda>c. (c, p @ [c])) (filter (\<lambda>c. c \<notin> insert n V) (getChildren g n))"
  shows "queue_inv g a b (rest @ new) (insert n V)"
proof -
  have p: "path_from_to g a n p" using inv by (simp add: queue_inv_def paths_ok_def)
  have pne: "p \<noteq> []" using p by (auto simp: path_from_to_def forward_path_nonempty)
  have hmin: "\<forall>x\<in>set rest. length p \<le> length (snd x)"
    using inv by (auto simp: queue_inv_def lens_ok_def)
  have hmax: "\<forall>x\<in>set rest. length (snd x) \<le> length p + 1"
    using inv by (auto simp: queue_inv_def lens_ok_def)
  have newlen: "\<forall>x\<in>set new. length (snd x) = length p + 1"
    by (auto simp: new_def)
  have 1: "paths_ok g a (rest @ new)"
  proof -
    have "\<forall>x\<in>set new. path_from_to g a (fst x) (snd x)"
    proof
      fix x assume "x \<in> set new"
      then obtain c where c: "x = (c, p @ [c])" "c \<in> set (getChildren g n)"
        by (auto simp: new_def)
      have "forward_path g (p @ [c])"
        using p c(2) by (intro forward_path_snoc) (auto simp: path_from_to_def)
      then show "path_from_to g a (fst x) (snd x)"
        using p pne c(1) by (simp add: path_from_to_def)
    qed
    then show ?thesis using inv by (auto simp: queue_inv_def paths_ok_def)
  qed
  have 2: "lens_ok (rest @ new)"
  proof -
    have s1: "sorted (map (\<lambda>x. length (snd x)) rest)"
      using inv by (simp add: queue_inv_def lens_ok_def)
    have "map (\<lambda>x. length (snd x)) new = replicate (length new) (length p + 1)"
      by (simp add: new_def comp_def map_replicate_const)
    then have s2: "sorted (map (\<lambda>x. length (snd x)) new)"
      by (simp add: sorted_replicate)
    have s: "sorted (map (\<lambda>x. length (snd x)) (rest @ new))"
      using s1 s2 hmax newlen by (auto simp: sorted_append)
    have r: "\<forall>x\<in>set rest. \<forall>y\<in>set rest. length (snd y) \<le> length (snd x) + 1"
      using inv by (simp add: queue_inv_def lens_ok_def)
    have "\<forall>x\<in>set (rest @ new). \<forall>y\<in>set (rest @ new). length (snd y) \<le> length (snd x) + 1"
    proof (intro ballI)
      fix x y assume x: "x \<in> set (rest @ new)" and y: "y \<in> set (rest @ new)"
      have lx: "length p \<le> length (snd x)" using x hmin newlen by auto
      have ly: "length (snd y) \<le> length p + 1" using y hmax newlen by auto
      show "length (snd y) \<le> length (snd x) + 1" using lx ly by simp
    qed
    then show ?thesis using s by (simp add: lens_ok_def)
  qed
  have 3: "frontier g a b (rest @ new) (insert n V)"
    unfolding frontier_def
  proof (intro allI impI)
    fix q assume q: "path_from_to g a b q"
    then obtain x i where x: "x \<in> set ((n, p) # rest)" "i < length q" "q ! i = fst x"
      "length (snd x) \<le> i + 1" "\<forall>j. i \<le> j \<and> j < length q \<longrightarrow> q ! j \<notin> V"
      using inv unfolding queue_inv_def frontier_def by blast
    have lp: "length p \<le> length (snd x)" using x(1) hmin by auto
    show "\<exists>x\<in>set (rest @ new). \<exists>i<length q. q ! i = fst x \<and> length (snd x) \<le> i + 1
           \<and> (\<forall>j. i \<le> j \<and> j < length q \<longrightarrow> q ! j \<notin> insert n V)"
    proof (cases "\<exists>j. i \<le> j \<and> j < length q \<and> q ! j = n")
      case False
      then have "fst x \<noteq> n" using x(2,3) by auto
      then have "x \<in> set (rest @ new)" using x(1) by auto
      moreover have "\<forall>j. i \<le> j \<and> j < length q \<longrightarrow> q ! j \<notin> insert n V"
        using False x(5) by auto
      ultimately show ?thesis using x(2,3,4) by blast
    next
      case True
      then obtain j0 where j0: "i \<le> j0 \<and> j0 < length q \<and> q ! j0 = n" by blast
      have "\<forall>y. (i \<le> y \<and> y < length q \<and> q ! y = n) \<longrightarrow> y \<le> length q" by simp
      from Nat.ex_has_greatest_nat[of "\<lambda>j. i \<le> j \<and> j < length q \<and> q ! j = n", OF j0 this]
      obtain k where k: "i \<le> k" "k < length q" "q ! k = n"
        and kmax: "\<forall>y. (i \<le> y \<and> y < length q \<and> q ! y = n) \<longrightarrow> y \<le> k" by blast
      have qne: "q \<noteq> []" using x(2) by auto
      have "q ! (length q - 1) = b" using q qne by (simp add: path_from_to_def last_conv_nth)
      then have "k \<noteq> length q - 1" using k(3) nb by auto
      then have sk: "Suc k < length q" using k(2) by simp
      define c where "c = q ! Suc k"
      have cn: "c \<in> set (getChildren g n)"
        using forward_path_step[of g q k] q sk k(3) by (simp add: c_def path_from_to_def)
      have cne: "c \<noteq> n"
      proof
        assume "c = n"
        then have "i \<le> Suc k \<and> Suc k < length q \<and> q ! Suc k = n" using sk k(1) by (simp add: c_def)
        then have "Suc k \<le> k" using kmax by blast
        then show False by simp
      qed
      have cV: "c \<notin> V" using x(5) k(1) sk by (simp add: c_def)
      have "(c, p @ [c]) \<in> set new" using cn cne cV by (auto simp: new_def)
      then have m: "(c, p @ [c]) \<in> set (rest @ new)" by simp
      have l: "length (snd (c, p @ [c])) \<le> Suc k + 1" using lp x(4) k(1) by simp
      have f: "\<forall>j. Suc k \<le> j \<and> j < length q \<longrightarrow> q ! j \<notin> insert n V"
      proof (intro allI impI)
        fix j assume j: "Suc k \<le> j \<and> j < length q"
        then have "q ! j \<notin> V" using x(5) k(1) by simp
        moreover have "q ! j \<noteq> n"
        proof
          assume "q ! j = n"
          then have "i \<le> j \<and> j < length q \<and> q ! j = n" using j k(1) by simp
          then have "j \<le> k" using kmax by blast
          then show False using j by simp
        qed
        ultimately show "q ! j \<notin> insert n V" by simp
      qed
      show ?thesis
        using m sk l f by (intro bexI[of _ "(c, p @ [c])"] exI[of _ "Suc k"]) (auto simp: c_def)
    qed
  qed
  show ?thesis using 1 2 3 by (simp add: queue_inv_def)
qed

lemma trace_loop_correct:
  "queue_inv g a b queue V \<Longrightarrow>
   (\<exists>p. trace_loop g b queue V = path_nodes g p \<and> path_from_to g a b p
       \<and> (\<forall>q. path_from_to g a b q \<longrightarrow> length p \<le> length q))
   \<or> (trace_loop g b queue V = [] \<and> (\<forall>q. \<not> path_from_to g a b q))"
proof (induction g b queue V rule: trace_loop.induct)
  case (1 g toNodeId V)
  then show ?case using queue_inv_empty[of g a toNodeId V] by (simp add: trace_loop.simps)
next
  case (2 g toNodeId nodeId path queue V)
  show ?case
  proof (cases "nodeId = toNodeId")
    case True
    then show ?thesis using queue_inv_found[of g a toNodeId path queue V] "2.prems"
      by (auto simp: trace_loop.simps)
  next
    case ne: False
    show ?thesis
    proof (cases "nodeId \<in> V")
      case True
      have "queue_inv g a toNodeId queue V" using queue_inv_skip[OF "2.prems" True] .
      from "2.IH"(1)[OF ne True this] show ?thesis using ne True by (simp add: trace_loop.simps)
    next
      case False
      have "queue_inv g a toNodeId
          (enqueue_children path (insert nodeId V) (getChildren g nodeId) queue) (insert nodeId V)"
        using queue_inv_expand[OF "2.prems" False ne] by (simp add: enqueue_children_eq)
      from "2.IH"(2)[OF ne False this] show ?thesis using ne False by (simp add: trace_loop.simps)
    qed
  qed
qed

lemma path_nodes_stored:
  "set p \<subseteq> set (map_keys (nodes g)) \<Longrightarrow> path_nodes g p = map (node_at g) p"
proof (induction p)
  case Nil
  then show ?case by (simp add: path_nodes_def)
next
  case (Cons i p)
  then obtain n where "map_get (nodes g) i = Some n"
    using map_get_None_iff[of "nodes g" i] by (cases "map_get (nodes g) i") auto
  then show ?case using Cons by (simp add: path_nodes_def node_at_def)
qed

lemma getChildren_stored:
  "children_stored g \<Longrightarrow> set (getChildren g x) \<subseteq> set (map_keys (nodes g))"
proof (cases "map_of (edges g) x")
  case None
  then show ?thesis by (simp add: getChildren_def map_get_def)
next
  case (Some cs)
  assume "children_stored g"
  moreover have "(x, cs) \<in> set (edges g)" using Some by (rule map_of_SomeD)
  ultimately have "set cs \<subseteq> set (map_keys (nodes g))" unfolding children_stored_def by blast
  then show ?thesis using Some by (simp add: getChildren_def map_get_def)
qed

lemma forward_path_stored:
  "children_stored g \<Longrightarrow> forward_path g p \<Longrightarrow> hd p \<in> set (map_keys (nodes g)) \<Longrightarrow>
   set p \<subseteq> set (map_keys (nodes g))"
proof (induction g p rule: forward_path.induct)
  case (3 g x y zs)
  have "y \<in> set (map_keys (nodes g))" using getChildren_stored[OF "3.prems"(1), of x] "3.prems"(2) by auto
  then show ?case using 3 by simp
qed auto


text \<open>
  Claim C9. In every store whose child lists hold stored ids only: if both ids are keys
  of the store and some forward path leads from \<open>a\<close> to \<open>b\<close>, then
  \<open>traceCausalChain\<close> returns the nodes stored under the ids of a forward path from
  \<open>a\<close> to \<open>b\<close>, both ends included, and no forward path from \<open>a\<close> to \<open>b\<close> is shorter;
  if one of the ids is not a key or no forward path exists, it returns the empty list.
  The search always returns (\<open>trace_loop\<close> is a total function).
\<close>

theorem traceCausalChain_shortest:
  assumes "children_stored g"
  shows "(map_has (nodes g) a \<and> map_has (nodes g) b \<and> (\<exists>q. path_from_to g a b q) \<longrightarrow>
           (\<exists>p. traceCausalChain g a b = map (node_at g) p \<and> path_from_to g a b p
              \<and> (\<forall>q. path_from_to g a b q \<longrightarrow> length p \<le> length q)))
    \<and> (\<not> map_has (nodes g) a \<or> \<not> map_has (nodes g) b \<or> \<not> (\<exists>q. path_from_to g a b q) \<longrightarrow>
           traceCausalChain g a b = [])"
proof (cases "map_has (nodes g) a \<and> map_has (nodes g) b")
  case False
  then show ?thesis by (auto simp: traceCausalChain_def)
next
  case True
  then have t: "traceCausalChain g a b = trace_loop g b [(a, [a])] {}"
    by (simp add: traceCausalChain_def)
  from trace_loop_correct[OF queue_inv_init[of g a b]]
  consider (found) p where "trace_loop g b [(a, [a])] {} = path_nodes g p" "path_from_to g a b p"
      "\<forall>q. path_from_to g a b q \<longrightarrow> length p \<le> length q"
    | (none) "trace_loop g b [(a, [a])] {} = []" "\<forall>q. \<not> path_from_to g a b q"
    by blast
  then show ?thesis
  proof cases
    case found
    have "hd p \<in> set (map_keys (nodes g))"
      using found(2) True by (simp add: path_from_to_def map_has_iff)
    then have "set p \<subseteq> set (map_keys (nodes g))"
      using forward_path_stored[OF assms] found(2) by (simp add: path_from_to_def)
    then have "traceCausalChain g a b = map (node_at g) p"
      using found(1) t by (simp add: path_nodes_stored)
    then show ?thesis using found(2,3) True by blast
  next
    case none
    then show ?thesis using t by simp
  qed
qed

theorem traceCausalChain_shortest_witness:
  "children_stored chain_graph
   \<and> path_from_to chain_graph ''root'' ''leaf'' [''root'', ''mid'', ''leaf'']
   \<and> traceCausalChain chain_graph ''root'' ''leaf''
       = [createNode ''root'' [] ''A'' 1000, createNode ''mid'' [''root''] ''B'' 2000,
          createNode ''leaf'' [''mid''] ''A'' 3000]
   \<and> (\<exists>p. traceCausalChain chain_graph ''root'' ''leaf'' = map (node_at chain_graph) p
         \<and> path_from_to chain_graph ''root'' ''leaf'' p
         \<and> (\<forall>q. path_from_to chain_graph ''root'' ''leaf'' q \<longrightarrow> length p \<le> length q))
   \<and> traceCausalChain chain_graph ''leaf'' ''root'' = []
   \<and> traceCausalChain chain_graph ''root'' ''ghost'' = []"
proof -
  have h: "children_stored chain_graph"
    unfolding children_stored_def by code_simp
  have p: "path_from_to chain_graph ''root'' ''leaf'' [''root'', ''mid'', ''leaf'']"
    by code_simp
  have m: "map_has (nodes chain_graph) ''root''" "map_has (nodes chain_graph) ''leaf''"
    by code_simp+
  have e1: "traceCausalChain chain_graph ''root'' ''leaf''
       = [createNode ''root'' [] ''A'' 1000, createNode ''mid'' [''root''] ''B'' 2000,
          createNode ''leaf'' [''mid''] ''A'' 3000]"
    by code_simp
  have e2: "traceCausalChain chain_graph ''leaf'' ''root'' = []" by code_simp
  have e3: "traceCausalChain chain_graph ''root'' ''ghost'' = []" by code_simp
  have "\<exists>p. traceCausalChain chain_graph ''root'' ''leaf'' = map (node_at chain_graph) p
         \<and> path_from_to chain_graph ''root'' ''leaf'' p
         \<and> (\<forall>q. path_from_to chain_graph ''root'' ''leaf'' q \<longrightarrow> length p \<le> length q)"
    using traceCausalChain_shortest[OF h, of "''root''" "''leaf''"] m p by blast
  then show ?thesis using h p e1 e2 e3 by blast
qed


section \<open>Stores built by addNode\<close>

text \<open>
  The hypotheses on the store that the theorems above use hold for the empty store and
  are kept by \<open>addNode\<close>, so they hold for every store that the constructor and
  \<open>addNode\<close> (hence \<open>fromDict\<close> and \<open>fromXMTPThread\<close>) build.
\<close>

inductive built :: "DKG \<Rightarrow> bool" where
  built_new: "built new_DKG"
| built_add: "built g \<Longrightarrow> built (addNode g n nodeId)"

lemma map_set_all: "\<forall>x\<in>set m. Q x \<Longrightarrow> Q (k, v) \<Longrightarrow> \<forall>x\<in>set (map_set k v m). Q x"
  using set_map_set[of k v m] by blast

lemma add_edges_children:
  "\<forall>x\<in>set es. set (snd x) \<subseteq> S \<Longrightarrow> i \<in> S \<Longrightarrow> \<forall>x\<in>set (add_edges i ps es). set (snd x) \<subseteq> S"
proof (induction ps arbitrary: es)
  case Nil
  then show ?case by simp
next
  case (Cons q ps)
  define es1 where "es1 = (if \<not> map_has es q then map_set q [] es else es)"
  define cs where "cs = children_of es1 q"
  have s: "add_edges i (q # ps) es = add_edges i ps (map_set q (cs @ [i]) es1)"
    by (simp add: es1_def cs_def children_of_def Let_def)
  have 1: "\<forall>x\<in>set es1. set (snd x) \<subseteq> S"
    using Cons.prems(1) map_set_all[of es "\<lambda>x. set (snd x) \<subseteq> S" q "[]"] by (simp add: es1_def)
  have "set cs \<subseteq> S"
  proof (cases "map_of es1 q")
    case None
    then show ?thesis by (simp add: cs_def children_of_def map_get_def)
  next
    case (Some c)
    then have "(q, c) \<in> set es1" by (rule map_of_SomeD)
    then have "set c \<subseteq> S" using 1 by force
    then show ?thesis using Some by (simp add: cs_def children_of_def map_get_def)
  qed
  then have 2: "\<forall>x\<in>set (map_set q (cs @ [i]) es1). set (snd x) \<subseteq> S"
    using 1 Cons.prems(2) map_set_all[of es1 "\<lambda>x. set (snd x) \<subseteq> S" q "cs @ [i]"] by simp
  show ?case unfolding s using Cons.IH[OF 2 Cons.prems(2)] .
qed

lemma store_invariants_new:
  "distinct (map_keys (nodes new_DKG)) \<and> distinct (rootNodes new_DKG) \<and> children_stored new_DKG"
  by (simp add: new_DKG_def map_keys_def children_stored_def)

lemma store_invariants_addNode:
  assumes "distinct (map_keys (nodes g)) \<and> distinct (rootNodes g) \<and> children_stored g"
  shows "distinct (map_keys (nodes (addNode g n nodeId))) \<and> distinct (rootNodes (addNode g n nodeId))
    \<and> children_stored (addNode g n nodeId)"
proof -
  let ?i = "addNode_id n nodeId"
  let ?S = "set (map_keys (nodes (addNode g n nodeId)))"
  have 1: "distinct (map_keys (nodes (addNode g n nodeId)))"
    using assms by (simp add: nodes_addNode distinct_map_set)
  have 2: "distinct (rootNodes (addNode g n nodeId))"
    using assms by (simp add: rootNodes_addNode)
  have i: "?i \<in> ?S" by (simp add: nodes_addNode map_keys_map_set)
  have "set (map_keys (nodes g)) \<subseteq> ?S" by (auto simp: nodes_addNode map_keys_map_set)
  then have "\<forall>x\<in>set (edges g). set (snd x) \<subseteq> ?S"
    using assms unfolding children_stored_def by fastforce
  from add_edges_children[OF this i, of "parents n"]
  have 3: "children_stored (addNode g n nodeId)"
    unfolding children_stored_def edges_addNode by (simp add: split_def)
  show ?thesis using 1 2 3 by simp
qed

lemma built_invariants:
  "built g \<Longrightarrow>
   distinct (map_keys (nodes g)) \<and> distinct (rootNodes g) \<and> children_stored g"
proof (induction rule: built.induct)
  case built_new
  show ?case by (rule store_invariants_new)
next
  case (built_add g n nodeId)
  show ?case using built_add.IH by (rule store_invariants_addNode)
qed

end
